theory Spec2Isabelle
  imports Main "HOL-Library.Sublist"
begin

section \<open>Text and character classes\<close>

text \<open>
  The controller works on JavaScript strings. A string is modelled as a list of code
  units (\<open>char\<close>). Every literal and every class of the patterns below is ASCII, and none
  of the patterns has the \<open>u\<close> flag, so a code unit outside ASCII behaves like any other
  character that is in none of the classes.
\<close>

definition isDigit :: "char \<Rightarrow> bool" where
  "isDigit c = (c \<in> set ''0123456789'')"

definition isLower :: "char \<Rightarrow> bool" where
  "isLower c = (c \<in> set ''abcdefghijklmnopqrstuvwxyz'')"

definition isUpper :: "char \<Rightarrow> bool" where
  "isUpper c = (c \<in> set ''ABCDEFGHIJKLMNOPQRSTUVWXYZ'')"

text \<open>The class \<open>[a-zA-Z0-9._-]\<close> of \<open>usernameRegex\<close>.\<close>

definition isHandleChar :: "char \<Rightarrow> bool" where
  "isHandleChar c = (isLower c \<or> isUpper c \<or> isDigit c \<or> c \<in> set ''._-'')"

text \<open>The class \<open>\w\<close>, which decides the word boundary \<open>\b\<close>.\<close>

definition isWordChar :: "char \<Rightarrow> bool" where
  "isWordChar c = (isLower c \<or> isUpper c \<or> isDigit c \<or> c = CHR ''_'')"

text \<open>The line terminators that \<open>.\<close> does not match.\<close>

definition isLineTerminator :: "char \<Rightarrow> bool" where
  "isLineTerminator c = (c = CHR 0x0A \<or> c = CHR 0x0D)"

definition toLowerChar :: "char \<Rightarrow> char" where
  "toLowerChar c =
     (case map_of (zip ''ABCDEFGHIJKLMNOPQRSTUVWXYZ'' ''abcdefghijklmnopqrstuvwxyz'') c of
        Some l \<Rightarrow> l
      | None \<Rightarrow> c)"

definition toUpperChar :: "char \<Rightarrow> char" where
  "toUpperChar c =
     (case map_of (zip ''abcdefghijklmnopqrstuvwxyz'' ''ABCDEFGHIJKLMNOPQRSTUVWXYZ'') c of
        Some u \<Rightarrow> u
      | None \<Rightarrow> c)"

text \<open>\<open>String.prototype.toLowerCase\<close>, on the handles the controller applies it to.\<close>

definition toLowerCase :: "string \<Rightarrow> string" where
  "toLowerCase s = map toLowerChar s"

text \<open>
  \<open>[...new Set(xs)]\<close>: a set keeps its elements in insertion order and \<open>add\<close> of an
  element already present changes nothing.
\<close>

definition setAdd :: "'a list \<Rightarrow> 'a \<Rightarrow> 'a list" where
  "setAdd s x = (if x \<in> set s then s else s @ [x])"

definition newSet :: "'a list \<Rightarrow> 'a list" where
  "newSet xs = foldl setAdd [] xs"

section \<open>Regular expressions as anchored matchers\<close>

text \<open>
  A pattern is modelled by its anchored matcher: applied to the input from the current
  position on, it returns the captures and the input after the match, or \<open>None\<close>.
  \<open>matchAll\<close> and \<open>replaceAll\<close> are the engine's global scan: try the pattern at the
  current position; on a match continue after it, otherwise move on by one code unit.
  After an empty match the engine advances by one code unit; the patterns here all start
  with a literal \<open>@\<close>, so they match neither the empty string nor at the end of input.
\<close>

type_synonym 'a regex = "string \<Rightarrow> ('a \<times> string) option"

function matchAll :: "'a regex \<Rightarrow> string \<Rightarrow> 'a list" where
  "matchAll re [] = []"
| "matchAll re (c # cs) =
     (case re (c # cs) of
        None \<Rightarrow> matchAll re cs
      | Some (m, rest) \<Rightarrow>
          m # matchAll re (if length rest < length (c # cs) then rest else cs))"
  by pat_completeness auto
termination
  by (relation "measure (\<lambda>(re, s). length s)") auto

text \<open>\<open>s.replace(re, replacement)\<close> for a global pattern and a replacement without \<open>$\<close>.\<close>

function replaceAll :: "'a regex \<Rightarrow> string \<Rightarrow> string \<Rightarrow> string" where
  "replaceAll re replacement [] = []"
| "replaceAll re replacement (c # cs) =
     (case re (c # cs) of
        None \<Rightarrow> c # replaceAll re replacement cs
      | Some (m, rest) \<Rightarrow>
          (if length rest < length (c # cs) then replacement @ replaceAll re replacement rest
           else replacement @ c # replaceAll re replacement cs))"
  by pat_completeness auto
termination
  by (relation "measure (\<lambda>(re, replacement, s). length s)") auto

text \<open>
  The common prefix \<open>@\[([^\]]+)\]\(\<close> of the structured patterns. The class
  \<open>[^\]]+\<close> is greedy and must be followed by \<open>]\<close>: it takes the whole run of
  characters other than \<open>]\<close>, and giving back part of the run cannot help, since the
  next character would then be one of the run and not \<open>]\<close>.
\<close>

definition bracketName :: "(string) regex" where
  "bracketName s =
     (case s of
        c1 # c2 # r \<Rightarrow>
          if c1 = CHR ''@'' \<and> c2 = CHR ''['' then
            (let name = takeWhile (\<lambda>c. c \<noteq> CHR '']'') r in
             if name = [] then None
             else
               (case dropWhile (\<lambda>c. c \<noteq> CHR '']'') r of
                  d1 # d2 # rest \<Rightarrow>
                    if d1 = CHR '']'' \<and> d2 = CHR ''('' then Some (name, rest) else None
                | _ \<Rightarrow> None))
          else None
      | _ \<Rightarrow> None)"

text \<open>
  \<open>/@\[([^\]]+)\]\((\d+)\)/g\<close>, with the captures \<open>m[1]\<close> and \<open>m[2]\<close>. The digit run is
  greedy and must be followed by \<open>)\<close>, so again it is the whole run.
\<close>

definition uinRegex :: "(string \<times> string) regex" where
  "uinRegex s =
     (case bracketName s of
        None \<Rightarrow> None
      | Some (name, r) \<Rightarrow>
          (let ds = takeWhile isDigit r in
           if ds = [] then None
           else
             (case dropWhile isDigit r of
                d # rest \<Rightarrow> if d = CHR '')'' then Some ((name, ds), rest) else None
              | [] \<Rightarrow> None)))"

text \<open>\<open>/@([a-zA-Z0-9._-]+)/g\<close>, with the capture \<open>m[1]\<close>: the whole run of handle characters.\<close>

definition usernameRegex :: "string regex" where
  "usernameRegex s =
     (case s of
        c # r \<Rightarrow>
          if c = CHR ''@'' then
            (let h = takeWhile isHandleChar r in
             if h = [] then None else Some (h, dropWhile isHandleChar r))
          else None
      | [] \<Rightarrow> None)"

section \<open>extractMentions\<close>

record MentionResult =
  uins :: "string list"
  usernames :: "string list"

definition extractMentions :: "string \<Rightarrow> MentionResult" where
  "extractMentions content =
     (let uinMatches = matchAll uinRegex content;
          uins = newSet (map snd uinMatches);
          contentWithoutAutocomplete = replaceAll uinRegex '''' content;
          usernameMatches = matchAll usernameRegex contentWithoutAutocomplete;
          usernames = newSet (map toLowerCase usernameMatches)
      in \<lparr> uins = uins, usernames = usernames \<rparr>)"

section \<open>The mention check of the submission form\<close>

text \<open>
  The form (\<open>SubmitReportForm\<close>) has its own \<open>extractMention\<close>: the first match of the
  structured pattern in the content, else the first match of the plain pattern in the same
  content, else nothing. \<open>s.match(re)\<close> with a pattern that is not global returns the
  leftmost match.
\<close>

fun matchFirst :: "'a regex \<Rightarrow> string \<Rightarrow> 'a option" where
  "matchFirst re [] = None"
| "matchFirst re (c # cs) =
     (case re (c # cs) of
        None \<Rightarrow> matchFirst re cs
      | Some (m, rest) \<Rightarrow> Some m)"

datatype formMention = UinMention string string | UsernameMention string string | NoMention

definition extractMention :: "string \<Rightarrow> formMention" where
  "extractMention content =
     (case matchFirst uinRegex content of
        Some uinMatch \<Rightarrow> UinMention (snd uinMatch) (fst uinMatch)
      | None \<Rightarrow>
          (case matchFirst usernameRegex content of
             Some usernameMatch \<Rightarrow> UsernameMention usernameMatch usernameMatch
           | None \<Rightarrow> NoMention))"

section \<open>anonymizeContent\<close>

text \<open>
  The key of an alias entry is spliced into the source of two patterns without escaping.
  The keys the controller stores are digit runs (\<open>m[2]\<close> of \<open>uinRegex\<close>) and usernames
  returned by a lookup that filters on lower-cased handles, so a key is a string over
  \<open>[a-zA-Z0-9._-]\<close> (lemma \<open>resolveMentions_handleKeys\<close> below); the model reads a key
  character by character and is meant for such keys only. In a pattern the letters, digits, \<open>_\<close> and \<open>-\<close> of a key stand for
  themselves and \<open>.\<close> matches any character but a line terminator. With the \<open>i\<close> flag
  two characters match when their canonical (upper-case) forms agree.
\<close>

definition canonicalize :: "bool \<Rightarrow> char \<Rightarrow> char" where
  "canonicalize ignoreCase c = (if ignoreCase then toUpperChar c else c)"

definition atomMatches :: "bool \<Rightarrow> char \<Rightarrow> char \<Rightarrow> bool" where
  "atomMatches ignoreCase k c =
     (if k = CHR ''.'' then \<not> isLineTerminator c
      else canonicalize ignoreCase k = canonicalize ignoreCase c)"

fun matchKey :: "bool \<Rightarrow> string \<Rightarrow> string \<Rightarrow> string option" where
  "matchKey ignoreCase [] s = Some s"
| "matchKey ignoreCase (k # ks) [] = None"
| "matchKey ignoreCase (k # ks) (c # cs) =
     (if atomMatches ignoreCase k c then matchKey ignoreCase ks cs else None)"

text \<open>\<open>new RegExp(`@\\[[^\\]]+\\]\\(${key}\\)`, 'g')\<close>\<close>

definition uinKeyRegex :: "string \<Rightarrow> unit regex" where
  "uinKeyRegex key s =
     (case bracketName s of
        None \<Rightarrow> None
      | Some (name, r) \<Rightarrow>
          (case matchKey False key r of
             None \<Rightarrow> None
           | Some r' \<Rightarrow>
               (case r' of
                  d # rest \<Rightarrow> if d = CHR '')'' then Some ((), rest) else None
                | [] \<Rightarrow> None)))"

text \<open>
  \<open>new RegExp(`@${key}\\b`, 'gi')\<close>. The assertion \<open>\b\<close> holds where exactly one of the
  character before the position and the character after it is a word character; the end
  of the input counts as no word character.
\<close>

definition wordBoundary :: "char \<Rightarrow> string \<Rightarrow> bool" where
  "wordBoundary prev rest =
     (isWordChar prev \<noteq> (case rest of [] \<Rightarrow> False | n # _ \<Rightarrow> isWordChar n))"

definition usernameKeyRegex :: "string \<Rightarrow> unit regex" where
  "usernameKeyRegex key s =
     (case s of
        [] \<Rightarrow> None
      | c # r \<Rightarrow>
          if c = CHR ''@'' then
            (case matchKey True key r of
               None \<Rightarrow> None
             | Some rest \<Rightarrow>
                 if wordBoundary (last (c # take (length key) r)) rest
                 then Some ((), rest) else None)
          else None)"

text \<open>
  \<open>Map<string, string>\<close>: the entries in insertion order; \<open>set\<close> on a key already present
  replaces its value and keeps its place.
\<close>

type_synonym aliasMap = "(string \<times> string) list"

definition replaceValue :: "string \<Rightarrow> string \<Rightarrow> aliasMap \<Rightarrow> aliasMap" where
  "replaceValue k v m = map (\<lambda>(k', v'). if k' = k then (k', v) else (k', v')) m"

definition mapSet :: "aliasMap \<Rightarrow> string \<Rightarrow> string \<Rightarrow> aliasMap" where
  "mapSet m k v = (if k \<in> fst ` set m then replaceValue k v m else m @ [(k, v)])"

definition anonymizeEntry :: "string \<Rightarrow> string \<times> string \<Rightarrow> string" where
  "anonymizeEntry anonymized entry =
     (case entry of (key, alias) \<Rightarrow>
        replaceAll (usernameKeyRegex key) alias (replaceAll (uinKeyRegex key) alias anonymized))"

definition anonymizeContent :: "string \<Rightarrow> aliasMap \<Rightarrow> string" where
  "anonymizeContent content aliasMap = foldl anonymizeEntry content aliasMap"

section \<open>The collaborators of the controller\<close>

text \<open>
  The tables the controller queries. Only the columns it names are kept. A username may
  be absent (\<open>null\<close>); such a row never passes an \<open>in\<close> filter on the username.
\<close>

record identity_row =
  email_hash :: string
  username :: "string option"
  uin :: string

record report =
  report_id :: string
  victim_uin :: string
  subject_uins :: "string list"
  content :: string
  incident_type :: string
  interim_relief :: "string list"
  organization_id :: string
  case_token :: string
  status :: string
  created_at :: string
  closed_at :: "string option"

record store =
  identity_mapping :: "identity_row list"
  public_directory :: "string list"
  reports :: "report list"

text \<open>
  How one awaited storage call ends: it resolves with data, it resolves with
  \<open>{ data: null, error }\<close>, or the promise rejects and control passes to the \<open>catch\<close> of
  the handler.
\<close>

datatype outcome = Succeeds | Errors | Throws

text \<open>
  What the handler gets from outside for one request: whether the \<open>supabase\<close> client
  exists, the imported helpers \<open>hashEmail\<close>, \<open>generateCaseToken\<close> (its value for this
  request) and \<open>isValidCaseToken\<close>, how each storage call ends, whether
  \<open>scheduleTimelineAlerts\<close> throws, and the \<open>id\<close> and \<open>created_at\<close> that the database
  gives a new row.
\<close>

record env =
  supabaseConfigured :: bool
  hashEmail :: "string \<Rightarrow> string"
  generateCaseToken :: string
  isValidCaseToken :: "string \<Rightarrow> bool"
  victimRead :: outcome
  uinRead :: outcome
  usernameRead :: outcome
  reportInsert :: outcome
  statusRead :: outcome
  scheduleThrows :: bool
  newId :: string
  now :: string

text \<open>
  The reply \<open>{ data, error }\<close> of an awaited query, as the pair of the data (\<open>None\<close> for
  \<open>null\<close>) and whether \<open>error\<close> is set; \<open>None\<close> for the whole reply when the promise
  rejects. \<open>.single()\<close> turns anything but exactly one row into an error.
\<close>

type_synonym 'a reply = "('a option \<times> bool) option"

definition select :: "outcome \<Rightarrow> 'a \<Rightarrow> 'a reply" where
  "select oc rows =
     (case oc of
        Throws \<Rightarrow> None
      | Errors \<Rightarrow> Some (None, True)
      | Succeeds \<Rightarrow> Some (Some rows, False))"

definition single :: "outcome \<Rightarrow> 'a list \<Rightarrow> 'a reply" where
  "single oc rows =
     (case oc of
        Throws \<Rightarrow> None
      | Errors \<Rightarrow> Some (None, True)
      | Succeeds \<Rightarrow> (case rows of [r] \<Rightarrow> Some (Some r, False) | _ \<Rightarrow> Some (None, True)))"

text \<open>What the handler does that can be seen from outside, in order.\<close>

datatype event =
    SelectIdentityByEmailHash string
  | SelectDirectoryByUins "string list"
  | SelectIdentityByUsernames "string list"
  | InsertReport report
  | SelectReportByToken string
  | ScheduleTimelineAlerts string string string
  | ConsoleWarn string
  | ConsoleError string

fun isStorageCall :: "event \<Rightarrow> bool" where
  "isStorageCall (SelectIdentityByEmailHash h) = True"
| "isStorageCall (SelectDirectoryByUins us) = True"
| "isStorageCall (SelectIdentityByUsernames hs) = True"
| "isStorageCall (InsertReport r) = True"
| "isStorageCall (SelectReportByToken t) = True"
| "isStorageCall (ScheduleTimelineAlerts i org t) = False"
| "isStorageCall (ConsoleWarn m) = False"
| "isStorageCall (ConsoleError m) = False"

datatype json = JString string | JNull

record response =
  statusCode :: nat
  body :: "(string \<times> json) list"

definition errorResponse :: "nat \<Rightarrow> string \<Rightarrow> response" where
  "errorResponse code msg = \<lparr> statusCode = code, body = [(''error'', JString msg)] \<rparr>"

section \<open>submitReport\<close>

record SubmitReportRequest =
  email :: "string option"
  req_content :: "string option"
  req_incident_type :: "string option"
  req_interim_relief :: "string list option"
  req_organization_id :: "string option"

text \<open>\<open>!x\<close> for a field that is a string or missing.\<close>

definition missing :: "string option \<Rightarrow> bool" where
  "missing x = (x = None \<or> x = Some [])"

text \<open>The decimal numeral that a template literal prints for a counter.\<close>

fun decimal :: "nat \<Rightarrow> string" where
  "decimal n =
     (if n < 10 then [''0123456789'' ! n]
      else decimal (n div 10) @ [''0123456789'' ! (n mod 10)])"

declare decimal.simps [simp del]

definition subjectLabel :: "nat \<Rightarrow> string" where
  "subjectLabel n = ''SUBJECT_'' @ decimal n"

text \<open>The locals \<open>aliasMap\<close>, \<open>aliasCounter\<close> and \<open>subject_uins\<close> of the handler.\<close>

record resolution =
  aliasMap :: aliasMap
  aliasCounter :: nat
  subjectUins :: "string list"

definition initialResolution :: resolution where
  "initialResolution = \<lparr> aliasMap = [], aliasCounter = 1, subjectUins = [] \<rparr>"

text \<open>The body of the loop over \<open>mentions.uins\<close>.\<close>

definition addUin :: "string list \<Rightarrow> resolution \<Rightarrow> string \<Rightarrow> resolution" where
  "addUin validUins st u =
     (if u \<in> set validUins then
        \<lparr> aliasMap = mapSet (aliasMap st) u (subjectLabel (aliasCounter st)),
          aliasCounter = aliasCounter st + 1,
          subjectUins = subjectUins st @ [u] \<rparr>
      else st)"

text \<open>The body of the loop over \<open>usersByUsername\<close>.\<close>

definition addUser :: "resolution \<Rightarrow> string \<times> string \<Rightarrow> resolution" where
  "addUser st user =
     \<lparr> aliasMap = mapSet (aliasMap st) (fst user) (subjectLabel (aliasCounter st)),
       aliasCounter = aliasCounter st + 1,
       subjectUins = subjectUins st @ [snd user] \<rparr>"

text \<open>\<open>.from('identity_mapping').select('uin').eq('email_hash', emailHash)\<close>\<close>

definition uinsWithEmailHash :: "store \<Rightarrow> string \<Rightarrow> string list" where
  "uinsWithEmailHash db emailHash =
     map uin (filter (\<lambda>r. email_hash r = emailHash) (identity_mapping db))"

text \<open>\<open>.from('public_directory').select('uin').in('uin', mentions.uins)\<close>\<close>

definition directoryUins :: "store \<Rightarrow> string list \<Rightarrow> string list" where
  "directoryUins db mentionUins = filter (\<lambda>u. u \<in> set mentionUins) (public_directory db)"

text \<open>How a part of the handler ends: it returns a response, it throws, or it goes on.\<close>

datatype 'a step = Respond response | Throw | Continue 'a

text \<open>Lines 135 to 159: the directory check of the structured candidates and the loop after it.\<close>

definition resolveUins :: "env \<Rightarrow> store \<Rightarrow> string list \<Rightarrow> resolution \<Rightarrow> resolution step \<times> event list" where
  "resolveUins e db mentionUins st =
     (if length mentionUins > 0 then
        (case select (uinRead e) (directoryUins db mentionUins) of
           None \<Rightarrow> (Throw, [SelectDirectoryByUins mentionUins])
         | Some (validUsers, uinError) \<Rightarrow>
             (case validUsers of
                None \<Rightarrow>
                  (Respond (errorResponse 500 ''Failed to validate mentioned users''),
                   [SelectDirectoryByUins mentionUins])
              | Some validUins \<Rightarrow>
                  if uinError then
                    (Respond (errorResponse 500 ''Failed to validate mentioned users''),
                     [SelectDirectoryByUins mentionUins])
                  else
                    (Continue (foldl (addUin validUins) st mentionUins),
                     [SelectDirectoryByUins mentionUins])))
      else (Continue st, []))"

text \<open>\<open>.from('identity_mapping').select('username, uin').in('username', mentions.usernames)\<close>\<close>

definition usersWithUsername :: "store \<Rightarrow> string list \<Rightarrow> (string \<times> string) list" where
  "usersWithUsername db names =
     List.map_filter
       (\<lambda>r. case username r of
               None \<Rightarrow> None
             | Some n \<Rightarrow> if n \<in> set names then Some (n, uin r) else None)
       (identity_mapping db)"

text \<open>Lines 163 to 181: the username lookup of the plain candidates and the loop after it.\<close>

definition resolveUsernames :: "env \<Rightarrow> store \<Rightarrow> string list \<Rightarrow> resolution \<Rightarrow> resolution step \<times> event list" where
  "resolveUsernames e db mentionUsernames st =
     (if length mentionUsernames > 0 then
        (case select (usernameRead e) (usersWithUsername db mentionUsernames) of
           None \<Rightarrow> (Throw, [SelectIdentityByUsernames mentionUsernames])
         | Some (usersByUsername, usernameError) \<Rightarrow>
             (Continue
                (case usersByUsername of
                   None \<Rightarrow> st
                 | Some users \<Rightarrow> if length users > 0 then foldl addUser st users else st),
              SelectIdentityByUsernames mentionUsernames
                # (if usernameError then [ConsoleWarn ''Username lookup error:''] else [])))
      else (Continue st, []))"

text \<open>Lines 126 to 181: extraction and both resolutions, in the order of the source.\<close>

definition resolveMentions :: "env \<Rightarrow> store \<Rightarrow> string \<Rightarrow> resolution step \<times> event list" where
  "resolveMentions e db text =
     (let mentions = extractMentions text in
      case resolveUins e db (uins mentions) initialResolution of
        (Continue st, evs) \<Rightarrow>
          (case resolveUsernames e db (usernames mentions) st of
             (r, evs') \<Rightarrow> (r, evs @ evs'))
      | (r, evs) \<Rightarrow> (r, evs))"

text \<open>The \<open>catch\<close> of the handler: log and answer 500.\<close>

definition internalServerError :: "string \<Rightarrow> store \<Rightarrow> event list \<Rightarrow> response \<times> store \<times> event list" where
  "internalServerError label db evs =
     (errorResponse 500 ''Internal server error'', db, evs @ [ConsoleError label])"

text \<open>
  Lines 191 to 235: the insert, the alert scheduling in its own \<open>try\<close>, and the answer.
  The insert stores the row or fails as a whole; \<open>report\<close> is the stored row read back.
\<close>

definition createReport ::
  "env \<Rightarrow> store \<Rightarrow> string \<Rightarrow> string list \<Rightarrow> string \<Rightarrow> string \<Rightarrow> string list option \<Rightarrow> string
     \<Rightarrow> event list \<Rightarrow> response \<times> store \<times> event list" where
  "createReport e db victimUin subjects finalContent incidentType interimRelief organizationId evs =
     (let caseToken = generateCaseToken e;
          row = \<lparr> report_id = newId e,
                  victim_uin = victimUin,
                  subject_uins = subjects,
                  content = finalContent,
                  incident_type = incidentType,
                  interim_relief = (case interimRelief of None \<Rightarrow> [] | Some rs \<Rightarrow> rs),
                  organization_id = organizationId,
                  case_token = caseToken,
                  status = ''pending'',
                  created_at = now e,
                  closed_at = None \<rparr>
      in case reportInsert e of
           Throws \<Rightarrow> internalServerError ''Submit report error:'' db (evs @ [InsertReport row])
         | Errors \<Rightarrow>
             (errorResponse 500 ''Failed to submit report'', db,
              evs @ [InsertReport row, ConsoleError ''Report submission error:''])
         | Succeeds \<Rightarrow>
             (\<lparr> statusCode = 201,
                body = [(''message'', JString ''Report submitted successfully''),
                        (''case_token'', JString (case_token row)),
                        (''created_at'', JString (created_at row))] \<rparr>,
              db \<lparr> reports := reports db @ [row] \<rparr>,
              evs @ [InsertReport row,
                     ScheduleTimelineAlerts (report_id row) organizationId (created_at row)]
                  @ (if scheduleThrows e then [ConsoleWarn ''Timeline alerts not scheduled:'']
                     else [])))"

definition submitReport :: "env \<Rightarrow> store \<Rightarrow> SubmitReportRequest \<Rightarrow> response \<times> store \<times> event list" where
  "submitReport e db req =
     (if \<not> supabaseConfigured e then (errorResponse 503 ''Database not configured'', db, [])
      else if missing (email req) \<or> missing (req_content req) \<or> missing (req_incident_type req)
              \<or> missing (req_organization_id req)
      then (errorResponse 400 ''Missing required fields'', db, [])
      else
        (case (email req, req_content req, req_incident_type req, req_organization_id req) of
           (Some address, Some text, Some incidentType, Some organizationId) \<Rightarrow>
             if incidentType \<notin> set [''physical'', ''verbal'', ''psychological'']
             then (errorResponse 400 ''Invalid incident type'', db, [])
             else
               (let emailHash = hashEmail e address;
                    evs = [SelectIdentityByEmailHash emailHash]
                in case single (victimRead e) (uinsWithEmailHash db emailHash) of
                     None \<Rightarrow> internalServerError ''Submit report error:'' db evs
                   | Some (victimIdentity, victimError) \<Rightarrow>
                       (case victimIdentity of
                          None \<Rightarrow>
                            (errorResponse 404 ''User not found. Please register first.'', db, evs)
                        | Some victimUin \<Rightarrow>
                            if victimError then
                              (errorResponse 404 ''User not found. Please register first.'', db, evs)
                            else
                              (case resolveMentions e db text of
                                 (Respond r, evs') \<Rightarrow> (r, db, evs @ evs')
                               | (Throw, evs') \<Rightarrow>
                                   internalServerError ''Submit report error:'' db (evs @ evs')
                               | (Continue st, evs') \<Rightarrow>
                                   (let finalContent =
                                          (if length (aliasMap st) > 0
                                           then anonymizeContent text (aliasMap st) else text)
                                    in createReport e db victimUin (subjectUins st) finalContent
                                         incidentType (req_interim_relief req) organizationId
                                         (evs @ evs')))))
         | _ \<Rightarrow> (errorResponse 400 ''Missing required fields'', db, [])))"

section \<open>getReportStatus\<close>

text \<open>\<open>req.params.caseToken\<close>: a string, or an array of strings whose first element is taken.\<close>

datatype param = Single string | Multiple "string list"

definition paramToken :: "param \<Rightarrow> string option" where
  "paramToken caseToken =
     (case caseToken of
        Single t \<Rightarrow> Some t
      | Multiple ts \<Rightarrow> (case ts of [] \<Rightarrow> None | t # _ \<Rightarrow> Some t))"

definition getReportStatus :: "env \<Rightarrow> store \<Rightarrow> param \<Rightarrow> response \<times> event list" where
  "getReportStatus e db caseToken =
     (if \<not> supabaseConfigured e then (errorResponse 503 ''Database not configured'', [])
      else
        (case paramToken caseToken of
           None \<Rightarrow> (errorResponse 400 ''Invalid case token format'', [])
         | Some token \<Rightarrow>
             if token = [] \<or> \<not> isValidCaseToken e token
             then (errorResponse 400 ''Invalid case token format'', [])
             else
               (case single (statusRead e) (filter (\<lambda>r. case_token r = token) (reports db)) of
                  None \<Rightarrow>
                    (errorResponse 500 ''Internal server error'',
                     [SelectReportByToken token, ConsoleError ''Get report status error:''])
                | Some (found, err) \<Rightarrow>
                    (case found of
                       None \<Rightarrow> (errorResponse 404 ''Report not found'', [SelectReportByToken token])
                     | Some r \<Rightarrow>
                         if err then (errorResponse 404 ''Report not found'', [SelectReportByToken token])
                         else
                           (\<lparr> statusCode = 200,
                              body = [(''status'', JString (status r)),
                                      (''incident_type'', JString (incident_type r)),
                                      (''created_at'', JString (created_at r)),
                                      (''closed_at'',
                                       (case closed_at r of None \<Rightarrow> JNull | Some t \<Rightarrow> JString t))] \<rparr>,
                            [SelectReportByToken token])))))"

section \<open>handleSubmit of the submission form\<close>

text \<open>
  The checks of \<open>handleSubmit\<close> before it posts the request: the four required fields,
  then a mention. The result is the error message it shows, or the body it posts to
  \<open>/api/reports\<close>.
\<close>

record FormData =
  form_email :: string
  form_incident_type :: string
  form_content :: string
  form_interim_relief :: "string list"
  form_organization_id :: string

definition mentionValue :: "formMention \<Rightarrow> string option" where
  "mentionValue mention =
     (case mention of
        UinMention v d \<Rightarrow> Some v
      | UsernameMention v d \<Rightarrow> Some v
      | NoMention \<Rightarrow> None)"

definition handleSubmit :: "FormData \<Rightarrow> string + SubmitReportRequest" where
  "handleSubmit formData =
     (if form_email formData = [] \<or> form_incident_type formData = [] \<or> form_content formData = []
         \<or> form_organization_id formData = []
      then Inl ''Please fill in all required fields''
      else if missing (mentionValue (extractMention (form_content formData)))
      then Inl ''Please @mention the person you are reporting (type @ and select from suggestions)''
      else Inr \<lparr> email = Some (form_email formData),
                 req_content = Some (form_content formData),
                 req_incident_type = Some (form_incident_type formData),
                 req_interim_relief = Some (form_interim_relief formData),
                 req_organization_id = Some (form_organization_id formData) \<rparr>)"

section \<open>Concrete collaborators for the example runs\<close>

text \<open>
  A configured service without faults, a store with three registered people, and a
  request with all required fields whose narrative is the argument.
\<close>

definition exampleEnv :: env where
  "exampleEnv =
     \<lparr> supabaseConfigured = True,
       hashEmail = (\<lambda>address. ''sha:'' @ address),
       generateCaseToken = ''SH-7K2M9Q'',
       isValidCaseToken = (\<lambda>t. take 3 t = ''SH-'' \<and> length t = 9),
       victimRead = Succeeds,
       uinRead = Succeeds,
       usernameRead = Succeeds,
       reportInsert = Succeeds,
       statusRead = Succeeds,
       scheduleThrows = False,
       newId = ''r-1'',
       now = ''2025-01-01T00:00:00Z'' \<rparr>"

definition exampleStore :: store where
  "exampleStore =
     \<lparr> identity_mapping =
         [\<lparr> email_hash = ''sha:alice@example.org'', username = Some ''alice'', uin = ''1'' \<rparr>,
          \<lparr> email_hash = ''sha:bob@example.org'', username = Some ''bob'', uin = ''2'' \<rparr>,
          \<lparr> email_hash = ''sha:jane@example.org'', username = Some ''jane'', uin = ''9'' \<rparr>],
       public_directory = [''1'', ''2'', ''7'', ''9''],
       reports = [] \<rparr>"

definition exampleRequest :: "string \<Rightarrow> SubmitReportRequest" where
  "exampleRequest text =
     \<lparr> email = Some ''alice@example.org'',
       req_content = Some text,
       req_incident_type = Some ''verbal'',
       req_interim_relief = None,
       req_organization_id = Some ''org-1'' \<rparr>"

section \<open>Notions used to state the properties\<close>

text \<open>
  The candidates that resolve when both lookups succeed: the structured ids that the
  directory knows, in the order of \<open>mentions.uins\<close>, and the rows of the username lookup,
  in the order the store returns them.
\<close>

definition structuredResolved :: "store \<Rightarrow> MentionResult \<Rightarrow> string list" where
  "structuredResolved db mentions = filter (\<lambda>u. u \<in> set (public_directory db)) (uins mentions)"

definition plainResolved :: "store \<Rightarrow> MentionResult \<Rightarrow> (string \<times> string) list" where
  "plainResolved db mentions = usersWithUsername db (usernames mentions)"

definition resolvedKeys :: "store \<Rightarrow> MentionResult \<Rightarrow> string list" where
  "resolvedKeys db mentions = structuredResolved db mentions @ map fst (plainResolved db mentions)"

text \<open>
  An alias assignment is well labelled when it is a function on its keys, no two keys share
  a label, and every label is \<open>SUBJECT_n\<close> for a counter value \<open>n\<close> that was already used.
\<close>

definition labelled :: "resolution \<Rightarrow> bool" where
  "labelled st =
     (1 \<le> aliasCounter st
      \<and> distinct (map fst (aliasMap st)) \<and> distinct (map snd (aliasMap st))
      \<and> (\<forall>v \<in> snd ` set (aliasMap st). \<exists>n. 1 \<le> n \<and> n < aliasCounter st \<and> v = subjectLabel n))"

text \<open>Reading a decimal numeral back, to show that distinct counters print differently.\<close>

definition digitValue :: "char \<Rightarrow> nat" where
  "digitValue c = length (takeWhile (\<lambda>d. d \<noteq> c) ''0123456789'')"

definition fromDecimal :: "string \<Rightarrow> nat" where
  "fromDecimal s = foldl (\<lambda>a c. 10 * a + digitValue c) 0 s"



text \<open>
  The words of the specification for the extractor: a structured reference is the text
  \<open>@[name](id)\<close> with a non-empty name free of \<open>]\<close> and a non-empty run of digits as
  id; duplicates collapse to their first occurrence.
\<close>

definition structuredRef :: "string \<Rightarrow> string \<Rightarrow> string" where
  "structuredRef name i = ''@['' @ name @ '']('' @ i @ '')''"

definition wellFormedRef :: "string \<Rightarrow> string \<Rightarrow> bool" where
  "wellFormedRef name i =
     (name \<noteq> [] \<and> CHR '']'' \<notin> set name \<and> i \<noteq> [] \<and> list_all isDigit i)"

primrec firstSeen :: "'a list \<Rightarrow> 'a list" where
  "firstSeen [] = []"
| "firstSeen (x # xs) = x # filter (\<lambda>y. y \<noteq> x) (firstSeen xs)"

text \<open>The strings over the handle alphabet \<open>[a-zA-Z0-9._-]\<close>, which are the keys the model of the anonymizer reads.\<close>

definition handleKey :: "string \<Rightarrow> bool" where
  "handleKey k = (k \<noteq> [] \<and> list_all isHandleChar k)"


section \<open>Requests that pass validation\<close>

text \<open>
  The requests that get past lines 80 to 103: the client exists, the four required fields
  are non-empty strings and the incident type is one of the three categories.
\<close>

definition passesValidation ::
  "env \<Rightarrow> SubmitReportRequest \<Rightarrow> string \<Rightarrow> string \<Rightarrow> string \<Rightarrow> string \<Rightarrow> bool" where
  "passesValidation e req address text incidentType organizationId =
     (supabaseConfigured e
      \<and> email req = Some address \<and> address \<noteq> []
      \<and> req_content req = Some text \<and> text \<noteq> []
      \<and> req_incident_type req = Some incidentType
      \<and> incidentType \<in> set [''physical'', ''verbal'', ''psychological'']
      \<and> req_organization_id req = Some organizationId \<and> organizationId \<noteq> [])"

section \<open>The candidates that extractMentions returns\<close>

lemma set_firstSeen: "set (firstSeen xs) = set xs"
  by (induction xs) auto

lemma distinct_firstSeen: "distinct (firstSeen xs)"
  by (induction xs) (auto simp: set_firstSeen)

lemma foldl_setAdd:
  "foldl setAdd acc xs = acc @ filter (\<lambda>y. y \<notin> set acc) (firstSeen xs)"
proof (induction xs arbitrary: acc)
  case Nil
  then show ?case by simp
next
  case (Cons x xs)
  show ?case
  proof (cases "x \<in> set acc")
    case True
    then have "filter (\<lambda>y. y \<notin> set acc) (filter (\<lambda>y. y \<noteq> x) (firstSeen xs))
                 = filter (\<lambda>y. y \<notin> set acc) (firstSeen xs)"
      by (auto intro: filter_cong)
    with True Cons.IH [of acc] show ?thesis
      by (simp add: setAdd_def)
  next
    case False
    have "filter (\<lambda>y. y \<notin> set (acc @ [x])) (firstSeen xs)
            = filter (\<lambda>y. y \<notin> set acc) (filter (\<lambda>y. y \<noteq> x) (firstSeen xs))"
      by (auto intro: filter_cong)
    with False Cons.IH [of "acc @ [x]"] show ?thesis
      by (simp add: setAdd_def)
  qed
qed

lemma newSet_firstSeen: "newSet xs = firstSeen xs"
  by (simp add: newSet_def foldl_setAdd)

lemma takeWhile_stop:
  assumes "\<forall>x \<in> set xs. P x" "\<not> P a"
  shows "takeWhile P (xs @ a # ys) = xs" "dropWhile P (xs @ a # ys) = a # ys"
  using assms by (induction xs) auto

lemma split_at_first:
  assumes "xs @ a # ys = xs' @ a' # ys'"
    and "\<forall>x \<in> set xs. P x" "\<not> P a" "\<forall>x \<in> set xs'. P x" "\<not> P a'"
  shows "xs = xs' \<and> a = a' \<and> ys = ys'"
proof -
  have "takeWhile P (xs @ a # ys) = xs" "dropWhile P (xs @ a # ys) = a # ys"
    using assms(2,3) by (rule takeWhile_stop)+
  moreover have "takeWhile P (xs' @ a' # ys') = xs'" "dropWhile P (xs' @ a' # ys') = a' # ys'"
    using assms(4,5) by (rule takeWhile_stop)+
  ultimately show ?thesis
    using assms(1) by simp
qed

lemma run_then_rest:
  assumes "takeWhile P t = xs" "dropWhile P t = ys"
  shows "t = xs @ ys" "\<forall>x \<in> set xs. P x"
  using assms takeWhile_dropWhile_id [of P t] by (auto dest: set_takeWhileD)

lemma isDigit_special [simp]:
  "\<not> isDigit CHR '')''" "\<not> isDigit CHR ''@''"
  by (simp_all add: isDigit_def)

lemma bracketName_ref:
  assumes "name \<noteq> []" "CHR '']'' \<notin> set name"
  shows "bracketName (''@['' @ name @ '']('' @ r) = Some (name, r)"
proof -
  from assms(2) have "\<forall>x \<in> set name. x \<noteq> CHR '']''" by auto
  then have "takeWhile (\<lambda>c. c \<noteq> CHR '']'') (name @ CHR '']'' # CHR ''('' # r) = name"
       "dropWhile (\<lambda>c. c \<noteq> CHR '']'') (name @ CHR '']'' # CHR ''('' # r) = CHR '']'' # CHR ''('' # r"
    by (simp_all add: takeWhile_stop)
  with assms show ?thesis
    by (simp add: bracketName_def)
qed

lemma bracketName_Some:
  assumes "bracketName s = Some (name, r)"
  shows "s = ''@['' @ name @ '']('' @ r \<and> name \<noteq> [] \<and> CHR '']'' \<notin> set name"
proof -
  from assms obtain t where s: "s = CHR ''@'' # CHR ''['' # t"
    by (auto simp: bracketName_def split: list.splits if_splits)
  let ?P = "\<lambda>c. c \<noteq> CHR '']''"
  from assms s have n: "takeWhile ?P t = name" "name \<noteq> []"
    and d: "dropWhile ?P t = CHR '']'' # CHR ''('' # r"
    by (auto simp: bracketName_def Let_def split: list.splits if_splits)
  from run_then_rest [OF n(1) d] have "t = name @ CHR '']'' # CHR ''('' # r" "CHR '']'' \<notin> set name"
    by auto
  with s n(2) show ?thesis by simp
qed

lemma uinRegex_ref:
  assumes "wellFormedRef name i"
  shows "uinRegex (structuredRef name i @ post) = Some ((name, i), post)"
proof -
  from assms have nm: "name \<noteq> []" "CHR '']'' \<notin> set name"
    and ds: "i \<noteq> []" "\<forall>c \<in> set i. isDigit c"
    by (auto simp: wellFormedRef_def list_all_iff)
  have b: "bracketName (structuredRef name i @ post) = Some (name, i @ CHR '')'' # post)"
    using bracketName_ref [OF nm, of "i @ CHR '')'' # post"] by (simp add: structuredRef_def)
  have "takeWhile isDigit (i @ CHR '')'' # post) = i"
       "dropWhile isDigit (i @ CHR '')'' # post) = CHR '')'' # post"
    using ds by (simp_all add: takeWhile_stop)
  with ds b show ?thesis
    by (simp add: uinRegex_def)
qed

lemma uinRegex_Some:
  assumes "uinRegex s = Some ((name, i), rest)"
  shows "s = structuredRef name i @ rest \<and> wellFormedRef name i"
proof -
  from assms obtain r where b: "bracketName s = Some (name, r)"
    and i: "takeWhile isDigit r = i" "i \<noteq> []"
    and d: "dropWhile isDigit r = CHR '')'' # rest"
    by (auto simp: uinRegex_def Let_def split: option.splits list.splits if_splits)
  from run_then_rest [OF i(1) d] have r: "r = i @ CHR '')'' # rest" and "\<forall>c \<in> set i. isDigit c"
    by auto
  then have "list_all isDigit i"
    by (simp add: list_all_iff)
  with bracketName_Some [OF b] i(2) show ?thesis
    by (simp add: structuredRef_def wellFormedRef_def r)
qed

lemma uinRegex_shorter: "uinRegex s = Some (m, rest) \<Longrightarrow> length rest < length s"
  using uinRegex_Some [of s "fst m" "snd m" rest] by (simp add: structuredRef_def)


lemma structuredRef_append:
  "structuredRef name i @ post
     = CHR ''@'' # CHR ''['' # name @ CHR '']'' # CHR ''('' # i @ CHR '')'' # post"
  by (simp add: structuredRef_def)

lemma ref_same_start:
  assumes "wellFormedRef n d" "wellFormedRef name i"
    and eq: "t' @ CHR '']'' # CHR ''('' # d @ CHR '')'' # rest
              = CHR ''@'' # CHR ''['' # name @ CHR '']'' # CHR ''('' # i @ CHR '')'' # post"
    and t': "CHR '']'' \<notin> set t'"
  shows "d = i \<and> rest = post"
proof -
  from assms(1,2) have nm: "CHR '']'' \<notin> set name"
    and dd: "\<forall>c \<in> set d. isDigit c" and di: "\<forall>c \<in> set i. isDigit c"
    by (auto simp: wellFormedRef_def list_all_iff)
  from eq have "t' @ CHR '']'' # (CHR ''('' # d @ CHR '')'' # rest)
                  = (CHR ''@'' # CHR ''['' # name) @ CHR '']'' # (CHR ''('' # i @ CHR '')'' # post)"
    by simp
  from split_at_first [OF this, of "\<lambda>c. c \<noteq> CHR '']''"] t' nm
  have "d @ CHR '')'' # rest = i @ CHR '')'' # post"
    by auto
  from split_at_first [OF this, of isDigit] dd di show ?thesis
    by simp
qed

lemma ref_overlap:
  assumes wf1: "wellFormedRef n d" and wf2: "wellFormedRef name i"
    and suf: "suffix (structuredRef name i @ post) (structuredRef n d @ rest)"
  shows "suffix (structuredRef name i @ post) rest \<or> (d = i \<and> rest = post)"
proof -
  define t where "t = structuredRef name i @ post"
  define z4 where "z4 = CHR '')'' # rest"
  define z2 where "z2 = CHR '']'' # CHR ''('' # d @ z4"
  have t: "t = CHR ''@'' # CHR ''['' # name @ CHR '']'' # CHR ''('' # i @ CHR '')'' # post"
    by (simp add: t_def structuredRef_append)
  have s: "structuredRef n d @ rest = CHR ''@'' # CHR ''['' # n @ z2"
    by (simp add: structuredRef_append z2_def z4_def)
  from wf1 have nn: "CHR '']'' \<notin> set n" and dd: "\<forall>c \<in> set d. isDigit c"
    by (auto simp: wellFormedRef_def list_all_iff)
  from suf have "suffix t (CHR ''@'' # CHR ''['' # n @ z2)"
    by (simp add: t_def s)
  then consider (whole) "t = CHR ''@'' # CHR ''['' # n @ z2"
    | (name) "suffix t (n @ z2)"
    using t by (auto simp: suffix_Cons)
  then show ?thesis
  proof cases
    case whole
    then have "(CHR ''@'' # CHR ''['' # n) @ CHR '']'' # CHR ''('' # d @ CHR '')'' # rest
                 = CHR ''@'' # CHR ''['' # name @ CHR '']'' # CHR ''('' # i @ CHR '')'' # post"
      using t by (simp add: z2_def z4_def)
    from ref_same_start [OF wf1 wf2 this] nn show ?thesis
      by simp
  next
    case name
    then consider (inside) t' where "t = t' @ z2" "suffix t' n"
      | (after) "suffix t z2"
      by (auto simp: suffix_append)
    then show ?thesis
    proof cases
      case inside
      from inside(2) nn have "CHR '']'' \<notin> set t'"
        by (auto simp: suffix_def)
      moreover from inside(1) t
      have "t' @ CHR '']'' # CHR ''('' # d @ CHR '')'' # rest
              = CHR ''@'' # CHR ''['' # name @ CHR '']'' # CHR ''('' # i @ CHR '')'' # post"
        by (simp add: z2_def z4_def)
      ultimately show ?thesis
        using ref_same_start [OF wf1 wf2] by blast
    next
      case after
      then have "suffix t (d @ z4)"
        using t by (auto simp: z2_def suffix_Cons)
      then consider (digits) t' where "t = t' @ z4" "suffix t' d"
        | (close) "suffix t z4"
        by (auto simp: suffix_append)
      then show ?thesis
      proof cases
        case digits
        show ?thesis
        proof (cases t')
          case Nil
          with digits(1) t show ?thesis by (simp add: z4_def)
        next
          case (Cons c cs)
          with digits(2) have "c \<in> set d" by (auto simp: suffix_def)
          with dd have "isDigit c" by blast
          moreover from Cons digits(1) t have "c = CHR ''@''" by simp
          ultimately show ?thesis by simp
        qed
      next
        case close
        then have "suffix t rest"
          using t by (auto simp: z4_def suffix_Cons)
        then show ?thesis by (simp add: t_def)
      qed
    qed
  qed
qed


lemma uinRegex_Nil: "uinRegex [] = None"
  by (simp add: uinRegex_def bracketName_def)

lemma matchAll_uinRegex_None:
  "uinRegex (c # cs) = None \<Longrightarrow> matchAll uinRegex (c # cs) = matchAll uinRegex cs"
  by simp

lemma matchAll_uinRegex_Some:
  assumes "uinRegex s = Some (m, rest)"
  shows "matchAll uinRegex s = m # matchAll uinRegex rest"
proof (cases s)
  case Nil
  with assms show ?thesis by (simp add: uinRegex_Nil)
next
  case (Cons c cs)
  with assms uinRegex_shorter [OF assms] show ?thesis by simp
qed

lemma replaceAll_uinRegex_None:
  "uinRegex (c # cs) = None \<Longrightarrow> replaceAll uinRegex a (c # cs) = c # replaceAll uinRegex a cs"
  by simp

lemma replaceAll_uinRegex_Some:
  assumes "uinRegex s = Some (m, rest)"
  shows "replaceAll uinRegex a s = a @ replaceAll uinRegex a rest"
proof (cases s)
  case Nil
  with assms show ?thesis by (simp add: uinRegex_Nil)
next
  case (Cons c cs)
  with assms uinRegex_shorter [OF assms] show ?thesis by simp
qed

lemma matchAll_uinRegex_complete:
  assumes wf: "wellFormedRef name i"
  shows "suffix (structuredRef name i @ post) s \<Longrightarrow> i \<in> snd ` set (matchAll uinRegex s)"
proof (induction s rule: length_induct)
  case (1 s)
  let ?t = "structuredRef name i @ post"
  show ?case
  proof (cases s)
    case Nil
    with "1.prems" show ?thesis by (simp add: structuredRef_def)
  next
    case (Cons c cs)
    show ?thesis
    proof (cases "uinRegex s")
      case None
      with uinRegex_ref [OF wf, of post] have "?t \<noteq> s" by auto
      with "1.prems" Cons have "suffix ?t cs" by (auto simp: suffix_Cons)
      with "1.IH" Cons have "i \<in> snd ` set (matchAll uinRegex cs)" by simp
      with None Cons show ?thesis by (simp add: matchAll_uinRegex_None)
    next
      case (Some a)
      obtain n d rest where a: "a = ((n, d), rest)" by (cases a) auto
      from Some a uinRegex_Some [of s n d rest]
      have s: "s = structuredRef n d @ rest" and wf': "wellFormedRef n d" by auto
      from Some a have m: "matchAll uinRegex s = (n, d) # matchAll uinRegex rest"
        by (simp add: matchAll_uinRegex_Some)
      from "1.prems" s ref_overlap [OF wf' wf, of post rest]
      consider "suffix ?t rest" | "d = i" by auto
      then show ?thesis
      proof cases
        case 1
        from s have "length rest < length s" by (simp add: structuredRef_def)
        with "1.IH" 1 have "i \<in> snd ` set (matchAll uinRegex rest)" by simp
        with m show ?thesis by auto
      next
        case 2
        with m show ?thesis by auto
      qed
    qed
  qed
qed

lemma matchAll_uinRegex_sound:
  "(name, i) \<in> set (matchAll uinRegex s)
     \<Longrightarrow> wellFormedRef name i \<and> (\<exists>pre post. s = pre @ structuredRef name i @ post)"
proof (induction s rule: length_induct)
  case (1 s)
  show ?case
  proof (cases s)
    case Nil
    with "1.prems" show ?thesis by simp
  next
    case (Cons c cs)
    show ?thesis
    proof (cases "uinRegex s")
      case None
      with "1.prems" Cons have "(name, i) \<in> set (matchAll uinRegex cs)"
        by (simp add: matchAll_uinRegex_None)
      with "1.IH" Cons obtain pre post where "wellFormedRef name i" "cs = pre @ structuredRef name i @ post"
        by auto
      then have "wellFormedRef name i" "s = (c # pre) @ structuredRef name i @ post"
        using Cons by simp_all
      then show ?thesis by blast
    next
      case (Some a)
      obtain n d rest where a: "a = ((n, d), rest)" by (cases a) auto
      from Some a uinRegex_Some [of s n d rest]
      have s: "s = structuredRef n d @ rest" and wf': "wellFormedRef n d" by auto
      from Some a have m: "matchAll uinRegex s = (n, d) # matchAll uinRegex rest"
        by (simp add: matchAll_uinRegex_Some)
      with "1.prems" consider "(name, i) = (n, d)" | "(name, i) \<in> set (matchAll uinRegex rest)"
        by auto
      then show ?thesis
      proof cases
        case 1
        with s wf' have "wellFormedRef name i" "s = [] @ structuredRef name i @ rest" by simp_all
        then show ?thesis by blast
      next
        case 2
        from s have "length rest < length s" by (simp add: structuredRef_def)
        with "1.IH" 2 obtain pre post where "wellFormedRef name i" "rest = pre @ structuredRef name i @ post"
          by blast
        with s have "wellFormedRef name i" "s = (structuredRef n d @ pre) @ structuredRef name i @ post"
          by simp_all
        then show ?thesis by blast
      qed
    qed
  qed
qed

lemma replaceAll_uinRegex_ref:
  assumes wf: "wellFormedRef name i"
  shows "\<exists>pre'. subseq pre' pre
           \<and> replaceAll uinRegex [] (pre @ structuredRef name i @ post)
               = pre' @ replaceAll uinRegex [] post"
proof (induction pre rule: length_induct)
  case (1 pre)
  let ?t = "structuredRef name i @ post"
  show ?case
  proof (cases pre)
    case Nil
    have "replaceAll uinRegex [] ?t = replaceAll uinRegex [] post"
      using replaceAll_uinRegex_Some [OF uinRegex_ref [OF wf, of post], of "[]"] by simp
    with Nil show ?thesis by auto
  next
    case (Cons c pre0)
    show ?thesis
    proof (cases "uinRegex (pre @ ?t)")
      case None
      from "1.IH" Cons obtain pre0' where "subseq pre0' pre0"
          "replaceAll uinRegex [] (pre0 @ ?t) = pre0' @ replaceAll uinRegex [] post"
        by auto
      with None Cons have "subseq (c # pre0') pre"
          "replaceAll uinRegex [] (pre @ ?t) = (c # pre0') @ replaceAll uinRegex [] post"
        by (simp_all add: replaceAll_uinRegex_None)
      then show ?thesis by blast
    next
      case (Some a)
      obtain n d rest where a: "a = ((n, d), rest)" by (cases a) auto
      from Some a uinRegex_Some [of "pre @ ?t" n d rest]
      have s: "pre @ ?t = structuredRef n d @ rest" and wf': "wellFormedRef n d" by auto
      from Some a have r: "replaceAll uinRegex [] (pre @ ?t) = replaceAll uinRegex [] rest"
        using replaceAll_uinRegex_Some [of "pre @ ?t" "(n, d)" rest "[]"] by simp
      have "suffix ?t (structuredRef n d @ rest)"
        unfolding s [symmetric] by (rule suffixI) simp
      from ref_overlap [OF wf' wf this]
      consider "suffix ?t rest" | "rest = post" by auto
      then show ?thesis
      proof cases
        case 1
        then obtain pre1 where rest: "rest = pre1 @ ?t" by (auto simp: suffix_def)
        with s have pre: "pre = structuredRef n d @ pre1" by simp
        then have "length pre1 < length pre" by (simp add: structuredRef_def)
        with "1.IH" obtain pre1' where "subseq pre1' pre1"
            "replaceAll uinRegex [] (pre1 @ ?t) = pre1' @ replaceAll uinRegex [] post"
          by blast
        with r rest pre have "subseq pre1' pre"
            "replaceAll uinRegex [] (pre @ ?t) = pre1' @ replaceAll uinRegex [] post"
          by (simp_all add: list_emb_append2)
        then show ?thesis by blast
      next
        case 2
        with r have "subseq [] pre" "replaceAll uinRegex [] (pre @ ?t) = [] @ replaceAll uinRegex [] post"
          by simp_all
        then show ?thesis by blast
      qed
    qed
  qed
qed


lemma toLowerChar_lower: "\<forall>l \<in> set ''abcdefghijklmnopqrstuvwxyz''. toLowerChar l = l"
  by code_simp

lemma toLowerChar_idem: "toLowerChar (toLowerChar c) = toLowerChar c"
proof (cases "map_of (zip ''ABCDEFGHIJKLMNOPQRSTUVWXYZ'' ''abcdefghijklmnopqrstuvwxyz'') c")
  case None
  then show ?thesis by (simp add: toLowerChar_def)
next
  case (Some l)
  then have "(c, l) \<in> set (zip ''ABCDEFGHIJKLMNOPQRSTUVWXYZ'' ''abcdefghijklmnopqrstuvwxyz'')"
    by (rule map_of_SomeD)
  then have "l \<in> set ''abcdefghijklmnopqrstuvwxyz''"
    by (rule set_zip_rightD)
  with toLowerChar_lower have "toLowerChar l = l"
    by blast
  moreover from Some have "toLowerChar c = l" by (simp only: toLowerChar_def option.case)
  ultimately show ?thesis by simp
qed

lemma toLowerCase_idem: "toLowerCase (toLowerCase h) = toLowerCase h"
  by (simp add: toLowerCase_def toLowerChar_idem)

lemma map_toLowerCase_firstSeen:
  "map toLowerCase (firstSeen (map toLowerCase hs)) = firstSeen (map toLowerCase hs)"
proof (rule map_idI)
  fix h assume "h \<in> set (firstSeen (map toLowerCase hs))"
  then obtain h' where "h = toLowerCase h'" by (auto simp: set_firstSeen)
  then show "toLowerCase h = h" by (simp add: toLowerCase_idem)
qed

text \<open>
  C4. \<open>extractMentions\<close> finds every structured reference: the ids it returns are those
  of the well-formed references occurring anywhere in the text, each once, in the order in
  which the scan first meets them. The plain pass runs over the text from which the
  structured spans are deleted: whatever stands before a reference, the reference itself,
  bracketed name included, leaves no character in the text that is scanned for handles.
  The handles returned are the lower-cased matches of that scan, each once in first-seen
  order, so no two of them differ only by case.
\<close>

theorem extractMentions_candidates:
  "uins (extractMentions text) = firstSeen (map snd (matchAll uinRegex text))
   \<and> distinct (uins (extractMentions text))
   \<and> set (uins (extractMentions text))
       = {i. \<exists>pre name post. wellFormedRef name i \<and> text = pre @ structuredRef name i @ post}
   \<and> (\<forall>pre name i post.
         wellFormedRef name i \<and> text = pre @ structuredRef name i @ post
         \<longrightarrow> (\<exists>pre'. subseq pre' pre
                \<and> replaceAll uinRegex [] text = pre' @ replaceAll uinRegex [] post))
   \<and> usernames (extractMentions text)
       = firstSeen (map toLowerCase (matchAll usernameRegex (replaceAll uinRegex [] text)))
   \<and> distinct (map toLowerCase (usernames (extractMentions text)))"
proof -
  have u: "uins (extractMentions text) = firstSeen (map snd (matchAll uinRegex text))"
    by (simp add: extractMentions_def Let_def newSet_firstSeen)
  have n: "usernames (extractMentions text)
       = firstSeen (map toLowerCase (matchAll usernameRegex (replaceAll uinRegex [] text)))"
    by (simp add: extractMentions_def Let_def newSet_firstSeen)
  have d: "distinct (uins (extractMentions text))"
    by (simp add: u distinct_firstSeen)
  have s: "set (uins (extractMentions text))
       = {i. \<exists>pre name post. wellFormedRef name i \<and> text = pre @ structuredRef name i @ post}"
  proof (intro equalityI subsetI)
    fix i assume "i \<in> set (uins (extractMentions text))"
    then obtain name where "(name, i) \<in> set (matchAll uinRegex text)"
      by (auto simp: u set_firstSeen)
    from matchAll_uinRegex_sound [OF this]
    show "i \<in> {i. \<exists>pre name post. wellFormedRef name i \<and> text = pre @ structuredRef name i @ post}"
      by blast
  next
    fix i assume "i \<in> {i. \<exists>pre name post. wellFormedRef name i \<and> text = pre @ structuredRef name i @ post}"
    then obtain pre name post where wf: "wellFormedRef name i"
      and c: "text = pre @ structuredRef name i @ post" by blast
    from c have "suffix (structuredRef name i @ post) text"
      by (simp add: suffix_def)
    from matchAll_uinRegex_complete [OF wf this]
    show "i \<in> set (uins (extractMentions text))"
      by (simp add: u set_firstSeen)
  qed
  have r: "\<forall>pre name i post.
         wellFormedRef name i \<and> text = pre @ structuredRef name i @ post
         \<longrightarrow> (\<exists>pre'. subseq pre' pre
                \<and> replaceAll uinRegex [] text = pre' @ replaceAll uinRegex [] post)"
    using replaceAll_uinRegex_ref by blast
  have l: "distinct (map toLowerCase (usernames (extractMentions text)))"
    unfolding n by (simp only: map_toLowerCase_firstSeen distinct_firstSeen)
  from u d s r n l show ?thesis
    by (intro conjI)
qed

theorem extractMentions_candidates_witness:
  "wellFormedRef ''John'' ''7''
   \<and> ''7'' \<in> set (uins (extractMentions ''@jane and @[John](7), @Jane, @[J. Doe](7)''))
   \<and> uins (extractMentions ''@jane and @[John](7), @Jane, @[J. Doe](7)'') = [''7'']
   \<and> usernames (extractMentions ''@jane and @[John](7), @Jane, @[J. Doe](7)'') = [''jane'']
   \<and> replaceAll uinRegex [] ''@jane and @[John](7), @Jane, @[J. Doe](7)'' = ''@jane and , @Jane, ''"
proof -
  let ?c = "''@jane and @[John](7), @Jane, @[J. Doe](7)''"
  have wf: "wellFormedRef ''John'' ''7''"
    by (simp add: wellFormedRef_def isDigit_def)
  have c: "?c = ''@jane and '' @ structuredRef ''John'' ''7'' @ '', @Jane, @[J. Doe](7)''"
    by (simp add: structuredRef_def)
  from extractMentions_candidates [of ?c] wf c
  have "''7'' \<in> set (uins (extractMentions ?c))"
    by blast
  moreover have "uins (extractMentions ?c) = [''7'']"
      "usernames (extractMentions ?c) = [''jane'']"
      "replaceAll uinRegex [] ?c = ''@jane and , @Jane, ''"
    by code_simp+
  ultimately show ?thesis
    using wf by (intro conjI)
qed

section \<open>Plain handles made by the removal of a structured reference\<close>

text \<open>
  C10. The plain pass scans the text from which the structured spans were deleted, not
  masked. In \<open>@@[X](1)foo\<close> the span \<open>@[X](1)\<close> goes and leaves \<open>@foo\<close>, so
  \<open>extractMentions\<close> returns the handle \<open>foo\<close>, although the original text holds no
  \<open>@foo\<close> and a scan of the original for plain handles finds none.
\<close>

theorem extractMentions_handle_from_deleted_span:
  "uins (extractMentions ''@@[X](1)foo'') = [''1'']
   \<and> replaceAll uinRegex '''' ''@@[X](1)foo'' = ''@foo''
   \<and> usernames (extractMentions ''@@[X](1)foo'') = [''foo'']
   \<and> \<not> sublist ''@foo'' ''@@[X](1)foo''
   \<and> matchAll usernameRegex ''@@[X](1)foo'' = []"
  by code_simp

section \<open>Handles that extend a resolved handle\<close>

text \<open>
  C5. The claim fails on the code. The pattern \<open>@bob\b\<close> of the resolved handle \<open>bob\<close>
  also matches the first four characters of \<open>@bob.smith\<close>, since \<open>.\<close> is no word
  character; so the reference to \<open>bob.smith\<close>, which the store does not know and which
  stays unresolved, is rewritten to \<open>SUBJECT_1.smith\<close> instead of being left verbatim.
\<close>

theorem anonymizeContent_rewrites_unresolved_handle:
  "usernames (extractMentions ''@bob.smith and @bob'') = [''bob.smith'', ''bob'']
   \<and> usersWithUsername exampleStore [''bob.smith'', ''bob''] = [(''bob'', ''2'')]
   \<and> anonymizeContent ''@bob.smith and @bob'' [(''bob'', ''SUBJECT_1'')] = ''SUBJECT_1.smith and SUBJECT_1''
   \<and> map content (reports (fst (snd (submitReport exampleEnv exampleStore (exampleRequest ''@bob.smith and @bob'')))))
       = [''SUBJECT_1.smith and SUBJECT_1'']"
  by code_simp

section \<open>A second pass of the anonymizer\<close>





















section \<open>The alias assignment\<close>

lemma digitValue_table: "\<forall>k \<in> set [0..<10]. digitValue (''0123456789'' ! k) = k"
  by code_simp

lemma digitValue_nth: "k < 10 \<Longrightarrow> digitValue (''0123456789'' ! k) = k"
proof -
  assume "k < 10"
  then have "k \<in> set [0..<10]" by (simp only: set_upt atLeastLessThan_iff) simp
  with digitValue_table show ?thesis by blast
qed

lemma fromDecimal_snoc: "fromDecimal (s @ [c]) = 10 * fromDecimal s + digitValue c"
  by (simp add: fromDecimal_def)

lemma fromDecimal_decimal: "fromDecimal (decimal n) = n"
proof (induction n rule: decimal.induct)
  case (1 n)
  show ?case
  proof (cases "n < 10")
    case True
    then have "decimal n = [''0123456789'' ! n]"
      by (subst decimal.simps) simp
    with True show ?thesis
      by (simp add: fromDecimal_def digitValue_nth)
  next
    case False
    with 1 have ih: "fromDecimal (decimal (n div 10)) = n div 10" by simp
    from False have "decimal n = decimal (n div 10) @ [''0123456789'' ! (n mod 10)]"
      by (subst decimal.simps) simp
    with ih show ?thesis
      by (simp add: fromDecimal_snoc digitValue_nth)
  qed
qed

lemma decimal_inj: "decimal m = decimal n \<Longrightarrow> m = n"
  by (metis fromDecimal_decimal)

lemma subjectLabel_inj: "subjectLabel m = subjectLabel n \<longleftrightarrow> m = n"
  by (auto simp: subjectLabel_def dest: decimal_inj)

lemma replaceValue_keys: "map fst (replaceValue k v m) = map fst m"
  by (induction m) (auto simp: replaceValue_def)

lemma mapSet_keys:
  "map fst (mapSet m k v) = (if k \<in> fst ` set m then map fst m else map fst m @ [k])"
  by (simp add: mapSet_def replaceValue_keys)

lemma replaceValue_absent: "k \<notin> fst ` set m \<Longrightarrow> replaceValue k v m = m"
  by (induction m) (auto simp: replaceValue_def)

lemma replaceValue_values: "set (map snd (replaceValue k v m)) \<subseteq> insert v (set (map snd m))"
  by (induction m) (auto simp: replaceValue_def)

lemma replaceValue_distinct:
  assumes "distinct (map fst m)" "distinct (map snd m)" "v \<notin> set (map snd m)"
  shows "distinct (map snd (replaceValue k v m))"
  using assms
proof (induction m)
  case Nil
  then show ?case by (simp add: replaceValue_def)
next
  case (Cons a m)
  obtain k0 v0 where a: "a = (k0, v0)" by (cases a)
  have step: "replaceValue k v (a # m) = (if k0 = k then (k0, v) else (k0, v0)) # replaceValue k v m"
    by (simp add: replaceValue_def a)
  show ?case
  proof (cases "k0 = k")
    case True
    with Cons.prems a have "k \<notin> fst ` set m" by auto
    then have same: "replaceValue k v m = m"
      by (rule replaceValue_absent)
    from True have "replaceValue k v (a # m) = (k0, v) # m"
      by (simp add: step same)
    with Cons.prems show ?thesis
      by simp
  next
    case False
    from Cons.prems a have ih: "distinct (map snd (replaceValue k v m))"
      by (intro Cons.IH) auto
    from Cons.prems a have "v0 \<noteq> v" "v0 \<notin> set (map snd m)" by auto
    with replaceValue_values [of k v m] have "v0 \<notin> set (map snd (replaceValue k v m))"
      by blast
    with ih False show ?thesis
      by (simp add: step)
  qed
qed

lemma mapSet_distinct_values:
  assumes "distinct (map fst m)" "distinct (map snd m)" "v \<notin> set (map snd m)"
  shows "distinct (map snd (mapSet m k v))"
proof (cases "k \<in> fst ` set m")
  case True
  then have "mapSet m k v = replaceValue k v m"
    by (simp add: mapSet_def replaceValue_def)
  with replaceValue_distinct [OF assms] show ?thesis by simp
next
  case False
  with assms show ?thesis by (simp add: mapSet_def)
qed

lemma mapSet_value_set: "set (map snd (mapSet m k v)) \<subseteq> insert v (set (map snd m))"
proof (cases "k \<in> fst ` set m")
  case True
  then have "mapSet m k v = replaceValue k v m"
    by (simp add: mapSet_def replaceValue_def)
  with replaceValue_values [of k v m] show ?thesis by simp
next
  case False
  then show ?thesis by (auto simp: mapSet_def)
qed

lemma addUser_labelled:
  assumes "labelled st"
  shows "labelled (addUser st user)"
proof -
  let ?c = "aliasCounter st"
  let ?m = "mapSet (aliasMap st) (fst user) (subjectLabel ?c)"
  from assms have one: "1 \<le> ?c"
    and dk: "distinct (map fst (aliasMap st))"
    and dv: "distinct (map snd (aliasMap st))"
    and lab: "\<forall>v \<in> snd ` set (aliasMap st). \<exists>n. 1 \<le> n \<and> n < ?c \<and> v = subjectLabel n"
    unfolding labelled_def by blast+
  have fresh: "subjectLabel ?c \<notin> set (map snd (aliasMap st))"
  proof
    assume "subjectLabel ?c \<in> set (map snd (aliasMap st))"
    with lab obtain n where "n < ?c" "subjectLabel ?c = subjectLabel n"
      by auto
    then show False by (simp add: subjectLabel_inj)
  qed
  have keys: "distinct (map fst ?m)"
    using dk by (auto simp: mapSet_keys)
  have vals: "distinct (map snd ?m)"
    using dk dv fresh by (rule mapSet_distinct_values)
  have lab': "\<forall>v \<in> snd ` set ?m. \<exists>n. 1 \<le> n \<and> n < ?c + 1 \<and> v = subjectLabel n"
  proof
    fix v assume "v \<in> snd ` set ?m"
    then have "v \<in> insert (subjectLabel ?c) (set (map snd (aliasMap st)))"
      using mapSet_value_set [of "aliasMap st" "fst user" "subjectLabel ?c"] by auto
    then show "\<exists>n. 1 \<le> n \<and> n < ?c + 1 \<and> v = subjectLabel n"
    proof
      assume "v = subjectLabel ?c"
      with one show ?thesis by auto
    next
      assume "v \<in> set (map snd (aliasMap st))"
      with lab obtain n where "1 \<le> n" "n < ?c" "v = subjectLabel n" by auto
      then show ?thesis by (intro exI [of _ n]) simp
    qed
  qed
  from one keys vals lab' show ?thesis
    by (simp add: labelled_def addUser_def)
qed

lemma addUin_addUser: "addUin validUins st u = (if u \<in> set validUins then addUser st (u, u) else st)"
  by (simp add: addUin_def addUser_def)

lemma foldl_addUser_labelled: "labelled st \<Longrightarrow> labelled (foldl addUser st ps)"
  by (induction ps arbitrary: st) (simp_all add: addUser_labelled)

lemma foldl_addUin:
  "foldl (addUin validUins) st us
     = foldl addUser st (map (\<lambda>u. (u, u)) (filter (\<lambda>u. u \<in> set validUins) us))"
  by (induction us arbitrary: st) (simp_all add: addUin_addUser)

lemma initialResolution_labelled: "labelled initialResolution"
  by (simp add: labelled_def initialResolution_def)

lemma resolveUins_labelled:
  "resolveUins e db us st = (Continue st', evs) \<Longrightarrow> labelled st \<Longrightarrow> labelled st'"
  by (auto simp: resolveUins_def foldl_addUin foldl_addUser_labelled
           split: if_splits option.splits prod.splits)

lemma resolveUsernames_labelled:
  "resolveUsernames e db hs st = (Continue st', evs) \<Longrightarrow> labelled st \<Longrightarrow> labelled st'"
  by (auto simp: resolveUsernames_def foldl_addUser_labelled
           split: if_splits option.splits prod.splits)

lemma resolveMentions_labelled:
  "resolveMentions e db text = (Continue st, evs) \<Longrightarrow> labelled st"
  by (auto simp: resolveMentions_def Let_def
           split: prod.splits step.splits
           dest: resolveUsernames_labelled resolveUins_labelled [OF _ initialResolution_labelled])

lemma foldl_addUser_dense:
  assumes "distinct (map fst (aliasMap st) @ map fst ps)"
  shows "foldl addUser st ps
           = \<lparr> aliasMap = aliasMap st
                  @ zip (map fst ps) (map subjectLabel [aliasCounter st ..< aliasCounter st + length ps]),
               aliasCounter = aliasCounter st + length ps,
               subjectUins = subjectUins st @ map snd ps \<rparr>"
  using assms
proof (induction ps arbitrary: st)
  case Nil
  then show ?case by simp
next
  case (Cons p ps)
  from Cons.prems have new: "fst p \<notin> fst ` set (aliasMap st)"
    by auto
  then have m: "aliasMap (addUser st p) = aliasMap st @ [(fst p, subjectLabel (aliasCounter st))]"
    by (simp add: addUser_def mapSet_def)
  from Cons.prems have "distinct (map fst (aliasMap (addUser st p)) @ map fst ps)"
    by (auto simp: m)
  from Cons.IH [OF this]
  have ih: "foldl addUser (addUser st p) ps
           = \<lparr> aliasMap = aliasMap (addUser st p)
                  @ zip (map fst ps)
                      (map subjectLabel [aliasCounter (addUser st p) ..< aliasCounter (addUser st p) + length ps]),
               aliasCounter = aliasCounter (addUser st p) + length ps,
               subjectUins = subjectUins (addUser st p) @ map snd ps \<rparr>" .
  have c: "aliasCounter (addUser st p) = Suc (aliasCounter st)"
    by (simp add: addUser_def)
  have su: "subjectUins (addUser st p) = subjectUins st @ [snd p]"
    by (simp add: addUser_def)
  have u: "[aliasCounter st ..< aliasCounter st + length (p # ps)]
             = aliasCounter st # [Suc (aliasCounter st) ..< Suc (aliasCounter st) + length ps]"
    by (simp add: upt_conv_Cons del: upt_Suc)
  have "foldl addUser st (p # ps) = foldl addUser (addUser st p) ps"
    by simp
  also note ih
  finally show ?case
    unfolding u m c su by simp
qed

lemma filter_directoryUins:
  "filter (\<lambda>u. u \<in> set (directoryUins db us)) us = filter (\<lambda>u. u \<in> set (public_directory db)) us"
  by (rule filter_cong) (auto simp: directoryUins_def)

lemma resolveUins_succeeds:
  assumes "uinRead e = Succeeds"
  shows "fst (resolveUins e db us st)
           = Continue (foldl addUser st (map (\<lambda>u. (u, u)) (filter (\<lambda>u. u \<in> set (public_directory db)) us)))"
proof (cases "us = []")
  case True
  then show ?thesis by (simp add: resolveUins_def)
next
  case False
  with assms have "fst (resolveUins e db us st) = Continue (foldl (addUin (directoryUins db us)) st us)"
    by (simp add: resolveUins_def select_def)
  then show ?thesis
    by (simp only: foldl_addUin filter_directoryUins)
qed

lemma usersWithUsername_Nil: "usersWithUsername db [] = []"
  by (simp add: usersWithUsername_def List.map_filter_def filter_empty_conv split: option.splits)

lemma resolveUsernames_succeeds:
  assumes "usernameRead e = Succeeds"
  shows "fst (resolveUsernames e db hs st) = Continue (foldl addUser st (usersWithUsername db hs))"
proof (cases "hs = []")
  case True
  then show ?thesis by (simp add: resolveUsernames_def usersWithUsername_Nil)
next
  case False
  with assms show ?thesis
    by (cases "usersWithUsername db hs") (simp_all add: resolveUsernames_def select_def)
qed

lemma resolveMentions_succeeds:
  assumes "uinRead e = Succeeds" "usernameRead e = Succeeds"
  shows "fst (resolveMentions e db text)
           = Continue (foldl addUser initialResolution
               (map (\<lambda>u. (u, u)) (structuredResolved db (extractMentions text))
                @ plainResolved db (extractMentions text)))"
proof -
  let ?m = "extractMentions text"
  obtain r1 evs1 where r1: "resolveUins e db (uins ?m) initialResolution = (r1, evs1)"
    by (cases "resolveUins e db (uins ?m) initialResolution")
  with resolveUins_succeeds [OF assms(1), of db "uins ?m" initialResolution]
  have r1': "r1 = Continue (foldl addUser initialResolution
                   (map (\<lambda>u. (u, u)) (structuredResolved db ?m)))"
    by (simp add: structuredResolved_def)
  obtain r2 evs2 where r2: "resolveUsernames e db (usernames ?m)
        (foldl addUser initialResolution (map (\<lambda>u. (u, u)) (structuredResolved db ?m))) = (r2, evs2)"
    by (cases "resolveUsernames e db (usernames ?m)
        (foldl addUser initialResolution (map (\<lambda>u. (u, u)) (structuredResolved db ?m)))")
  with resolveUsernames_succeeds [OF assms(2), of db "usernames ?m"
      "foldl addUser initialResolution (map (\<lambda>u. (u, u)) (structuredResolved db ?m))"]
  have r2': "r2 = Continue (foldl addUser initialResolution
               (map (\<lambda>u. (u, u)) (structuredResolved db ?m) @ plainResolved db ?m))"
    by (simp add: plainResolved_def)
  show ?thesis
    by (simp add: resolveMentions_def Let_def r1 r1' r2 r2')
qed

text \<open>
  C3 (as amended). Within one submission every label of the alias assignment is
  \<open>SUBJECT_n\<close> for a value \<open>n\<close> from 1 on of the counter, the assignment is a function on its
  keys and it is injective. When both lookups succeed and the resolved keys are pairwise
  distinct, the labels are dense: the structured ids that the directory knows get
  \<open>SUBJECT_1\<close>, \<open>SUBJECT_2\<close>, ... in their first-seen order, and the plain handles follow in
  the order in which the username lookup returns its rows, which need not be the order of
  the text.
\<close>

theorem resolveMentions_alias_assignment:
  assumes run: "resolveMentions e db text = (Continue st, evs)"
  shows "labelled st
       \<and> (uinRead e = Succeeds \<and> usernameRead e = Succeeds
            \<and> distinct (resolvedKeys db (extractMentions text))
          \<longrightarrow> aliasMap st
                = zip (resolvedKeys db (extractMentions text))
                    (map subjectLabel [1 ..< Suc (length (resolvedKeys db (extractMentions text)))])
              \<and> subjectUins st
                = structuredResolved db (extractMentions text)
                  @ map snd (plainResolved db (extractMentions text)))"
proof (rule conjI [OF _ impI])
  show "labelled st"
    using run by (rule resolveMentions_labelled)
next
  assume h: "uinRead e = Succeeds \<and> usernameRead e = Succeeds
               \<and> distinct (resolvedKeys db (extractMentions text))"
  define ps where "ps = map (\<lambda>u. (u, u)) (structuredResolved db (extractMentions text))
                          @ plainResolved db (extractMentions text)"
  have keys: "map fst ps = resolvedKeys db (extractMentions text)"
    by (simp add: ps_def resolvedKeys_def comp_def)
  have uins: "map snd ps = structuredResolved db (extractMentions text)
                            @ map snd (plainResolved db (extractMentions text))"
    by (simp add: ps_def comp_def)
  have len: "length ps = length (resolvedKeys db (extractMentions text))"
    by (simp add: ps_def resolvedKeys_def)
  from h run resolveMentions_succeeds [of e db "text"]
  have st: "st = foldl addUser initialResolution ps"
    by (simp add: ps_def)
  from h have "distinct (map fst (aliasMap initialResolution) @ map fst ps)"
    by (simp add: keys initialResolution_def)
  from foldl_addUser_dense [OF this]
  have dense: "st = \<lparr> aliasMap = zip (map fst ps) (map subjectLabel [1 ..< 1 + length ps]),
                      aliasCounter = 1 + length ps,
                      subjectUins = map snd ps \<rparr>"
    unfolding st by (simp add: initialResolution_def)
  have "aliasMap st = zip (map fst ps) (map subjectLabel [1 ..< 1 + length ps])"
    by (subst dense) simp
  moreover have "subjectUins st = map snd ps"
    by (subst dense) simp
  ultimately
  show "aliasMap st
                = zip (resolvedKeys db (extractMentions text))
                    (map subjectLabel [1 ..< Suc (length (resolvedKeys db (extractMentions text)))])
              \<and> subjectUins st
                = structuredResolved db (extractMentions text)
                  @ map snd (plainResolved db (extractMentions text))"
    by (simp only: keys uins len plus_1_eq_Suc)
qed

theorem resolveMentions_alias_assignment_witness:
  "fst (resolveMentions exampleEnv exampleStore ''@jane harassed me and @[John](7) watched.'')
     = Continue \<lparr> aliasMap = [(''7'', ''SUBJECT_1''), (''jane'', ''SUBJECT_2'')],
                  aliasCounter = 3, subjectUins = [''7'', ''9''] \<rparr>
   \<and> uinRead exampleEnv = Succeeds \<and> usernameRead exampleEnv = Succeeds
   \<and> resolvedKeys exampleStore (extractMentions ''@jane harassed me and @[John](7) watched.'') = [''7'', ''jane'']
   \<and> distinct (resolvedKeys exampleStore (extractMentions ''@jane harassed me and @[John](7) watched.''))
   \<and> labelled \<lparr> aliasMap = [(''7'', ''SUBJECT_1''), (''jane'', ''SUBJECT_2'')],
                  aliasCounter = 3, subjectUins = [''7'', ''9''] \<rparr>
   \<and> [(''7'', ''SUBJECT_1''), (''jane'', ''SUBJECT_2'')]
       = zip (resolvedKeys exampleStore (extractMentions ''@jane harassed me and @[John](7) watched.''))
           (map subjectLabel
              [1 ..< Suc (length (resolvedKeys exampleStore
                                    (extractMentions ''@jane harassed me and @[John](7) watched.'')))])"
proof -
  let ?t = "''@jane harassed me and @[John](7) watched.''"
  let ?st = "\<lparr> aliasMap = [(''7'', ''SUBJECT_1''), (''jane'', ''SUBJECT_2'')],
                  aliasCounter = 3, subjectUins = [''7'', ''9''] \<rparr>"
  let ?evs = "[SelectDirectoryByUins [''7''], SelectIdentityByUsernames [''jane'']]"
  have run: "resolveMentions exampleEnv exampleStore ?t = (Continue ?st, ?evs)"
    by code_simp
  have keys: "resolvedKeys exampleStore (extractMentions ?t) = [''7'', ''jane'']"
    by code_simp
  then have d: "distinct (resolvedKeys exampleStore (extractMentions ?t))"
    by simp
  have ok: "uinRead exampleEnv = Succeeds" "usernameRead exampleEnv = Succeeds"
    by (simp_all add: exampleEnv_def)
  from resolveMentions_alias_assignment [OF run]
  have l: "labelled ?st"
    by (rule conjunct1)
  from resolveMentions_alias_assignment [OF run] ok d
  have "aliasMap ?st
          = zip (resolvedKeys exampleStore (extractMentions ?t))
              (map subjectLabel [1 ..< Suc (length (resolvedKeys exampleStore (extractMentions ?t)))])"
    by blast
  then have z: "[(''7'', ''SUBJECT_1''), (''jane'', ''SUBJECT_2'')]
          = zip (resolvedKeys exampleStore (extractMentions ?t))
              (map subjectLabel [1 ..< Suc (length (resolvedKeys exampleStore (extractMentions ?t)))])"
    by (simp only: resolution.simps)
  from run have r: "fst (resolveMentions exampleEnv exampleStore ?t) = Continue ?st"
    by simp
  from r ok keys d l z show ?thesis
    by (intro conjI)
qed

theorem resolveMentions_alias_assignment_counterexample:
  "usernames (extractMentions ''@jane and then @bob'') = [''jane'', ''bob'']
   \<and> fst (resolveMentions exampleEnv exampleStore ''@jane and then @bob'')
       = Continue \<lparr> aliasMap = [(''bob'', ''SUBJECT_1''), (''jane'', ''SUBJECT_2'')],
                    aliasCounter = 3, subjectUins = [''2'', ''9''] \<rparr>
   \<and> fst (resolveMentions exampleEnv
            (exampleStore \<lparr> identity_mapping :=
               [\<lparr> email_hash = ''sha:seven@example.org'', username = Some ''7'', uin = ''70'' \<rparr>] \<rparr>)
            ''@[John](7) and @7'')
       = Continue \<lparr> aliasMap = [(''7'', ''SUBJECT_2'')], aliasCounter = 3, subjectUins = [''7'', ''70''] \<rparr>"
  by code_simp

section \<open>The keys that reach the anonymizer\<close>

text \<open>
  Every key that a submission puts into the alias assignment is a digit run or a
  lower-cased handle returned by the username filter, hence a non-empty string over the
  handle alphabet: the keys on which the model of \<open>anonymizeContent\<close> reads the spliced
  pattern exactly.
\<close>

lemma usernameRegex_Some:
  assumes "usernameRegex s = Some (h, r)"
  shows "handleKey h \<and> length r < length s"
proof -
  from assms obtain t where s: "s = CHR ''@'' # t"
    and h: "takeWhile isHandleChar t = h" "h \<noteq> []" and r: "dropWhile isHandleChar t = r"
    by (auto simp: usernameRegex_def Let_def split: list.splits if_splits)
  from run_then_rest [OF h(1) r] h(2) s show ?thesis
    by (simp add: handleKey_def list_all_iff)
qed

lemma matchAll_usernameRegex_handles:
  "h \<in> set (matchAll usernameRegex s) \<Longrightarrow> handleKey h"
proof (induction s rule: length_induct)
  case (1 s)
  show ?case
  proof (cases s)
    case Nil
    with "1.prems" show ?thesis by simp
  next
    case (Cons c cs)
    show ?thesis
    proof (cases "usernameRegex s")
      case None
      with "1.prems" Cons have "h \<in> set (matchAll usernameRegex cs)" by simp
      moreover from Cons have "length cs < length s" by simp
      ultimately show ?thesis using "1.IH" by blast
    next
      case (Some a)
      obtain h' r where a: "a = (h', r)" by (cases a)
      from usernameRegex_Some [of s h' r] Some a
      have hk: "handleKey h'" and len: "length r < length s" by simp_all
      from Some a Cons len have "matchAll usernameRegex s = h' # matchAll usernameRegex r"
        by simp
      with "1.prems" consider "h = h'" | "h \<in> set (matchAll usernameRegex r)" by auto
      then show ?thesis
      proof cases
        case 1
        with hk show ?thesis by simp
      next
        case 2
        with "1.IH" len show ?thesis by blast
      qed
    qed
  qed
qed

lemma toLowerChar_handle_table:
  "\<forall>c \<in> set ''abcdefghijklmnopqrstuvwxyzABCDEFGHIJKLMNOPQRSTUVWXYZ0123456789._-''.
     isHandleChar (toLowerChar c)"
  by code_simp

lemma isHandleChar_set:
  "isHandleChar c \<longleftrightarrow> c \<in> set ''abcdefghijklmnopqrstuvwxyzABCDEFGHIJKLMNOPQRSTUVWXYZ0123456789._-''"
  unfolding isHandleChar_def isLower_def isUpper_def isDigit_def set_append [symmetric]
  by simp

lemma toLowerChar_handle: "isHandleChar c \<Longrightarrow> isHandleChar (toLowerChar c)"
  using toLowerChar_handle_table by (simp only: isHandleChar_set)

lemma toLowerCase_handleKey: "handleKey h \<Longrightarrow> handleKey (toLowerCase h)"
  by (simp add: handleKey_def toLowerCase_def list_all_iff toLowerChar_handle)

lemma extractMentions_handleKeys:
  "k \<in> set (uins (extractMentions text)) \<union> set (usernames (extractMentions text)) \<Longrightarrow> handleKey k"
proof -
  assume "k \<in> set (uins (extractMentions text)) \<union> set (usernames (extractMentions text))"
  then consider (u) "k \<in> set (uins (extractMentions text))"
    | (n) "k \<in> set (usernames (extractMentions text))" by blast
  then show ?thesis
  proof cases
    case u
    then obtain name where "(name, k) \<in> set (matchAll uinRegex text)"
      by (auto simp: extractMentions_def Let_def newSet_firstSeen set_firstSeen)
    from matchAll_uinRegex_sound [OF this] have "k \<noteq> []" "list_all isDigit k"
      by (simp_all add: wellFormedRef_def)
    then show ?thesis
      by (auto simp: handleKey_def list_all_iff isHandleChar_def)
  next
    case n
    then obtain h where "h \<in> set (matchAll usernameRegex (replaceAll uinRegex [] text))" "k = toLowerCase h"
      by (auto simp: extractMentions_def Let_def newSet_firstSeen set_firstSeen)
    with matchAll_usernameRegex_handles toLowerCase_handleKey show ?thesis
      by blast
  qed
qed

lemma foldl_addUser_keys:
  "fst ` set (aliasMap (foldl addUser st ps)) \<subseteq> fst ` set (aliasMap st) \<union> fst ` set ps"
proof (induction ps arbitrary: st)
  case Nil
  then show ?case by simp
next
  case (Cons p ps)
  have "set (map fst (aliasMap (addUser st p))) \<subseteq> insert (fst p) (set (map fst (aliasMap st)))"
    by (auto simp: addUser_def mapSet_keys simp del: set_map)
  with Cons [of "addUser st p"] show ?case
    by auto
qed

lemma usersWithUsername_names: "fst ` set (usersWithUsername db names) \<subseteq> set names"
  by (auto simp: usersWithUsername_def List.map_filter_def split: option.splits if_splits)

lemma foldl_addUin_keys:
  "fst ` set (aliasMap (foldl (addUin validUins) st us)) \<subseteq> fst ` set (aliasMap st) \<union> set us"
  using foldl_addUser_keys [of st "map (\<lambda>u. (u, u)) (filter (\<lambda>u. u \<in> set validUins) us)"]
  by (auto simp: foldl_addUin)

lemma resolveUins_keys:
  assumes "resolveUins e db us st = (Continue st', evs)"
  shows "fst ` set (aliasMap st') \<subseteq> fst ` set (aliasMap st) \<union> set us"
proof -
  from assms have "st' = st \<or> (\<exists>validUins. st' = foldl (addUin validUins) st us)"
    by (auto simp: resolveUins_def split: if_splits option.splits prod.splits)
  with foldl_addUin_keys show ?thesis
    by blast
qed

lemma resolveUsernames_keys:
  assumes "resolveUsernames e db hs st = (Continue st', evs)"
  shows "fst ` set (aliasMap st') \<subseteq> fst ` set (aliasMap st) \<union> set hs"
proof -
  from assms have "st' = st \<or> st' = foldl addUser st (usersWithUsername db hs)"
    by (auto simp: resolveUsernames_def select_def
             split: if_splits option.splits prod.splits outcome.splits)
  with foldl_addUser_keys [of st "usersWithUsername db hs"] usersWithUsername_names [of db hs]
  show ?thesis
    by blast
qed

lemma resolveMentions_handleKeys:
  assumes "resolveMentions e db text = (Continue st, evs)"
  shows "\<forall>k \<in> fst ` set (aliasMap st). handleKey k"
proof -
  from assms obtain st1 evs1 evs2
    where r1: "resolveUins e db (uins (extractMentions text)) initialResolution = (Continue st1, evs1)"
      and r2: "resolveUsernames e db (usernames (extractMentions text)) st1 = (Continue st, evs2)"
    by (auto simp: resolveMentions_def Let_def split: prod.splits step.splits)
  from resolveUins_keys [OF r1]
  have "fst ` set (aliasMap st1) \<subseteq> set (uins (extractMentions text))"
    by (simp add: initialResolution_def)
  with resolveUsernames_keys [OF r2]
  have "fst ` set (aliasMap st)
          \<subseteq> set (uins (extractMentions text)) \<union> set (usernames (extractMentions text))"
    by blast
  with extractMentions_handleKeys show ?thesis
    by blast
qed

section \<open>The handler after validation\<close>

lemma submitReport_validated:
  assumes "passesValidation e req address text incidentType organizationId"
  shows "submitReport e db req =
     (case single (victimRead e) (uinsWithEmailHash db (hashEmail e address)) of
        None \<Rightarrow> internalServerError ''Submit report error:'' db [SelectIdentityByEmailHash (hashEmail e address)]
      | Some (victimIdentity, victimError) \<Rightarrow>
          (case victimIdentity of
             None \<Rightarrow> (errorResponse 404 ''User not found. Please register first.'', db, [SelectIdentityByEmailHash (hashEmail e address)])
           | Some victimUin \<Rightarrow>
               if victimError then
                 (errorResponse 404 ''User not found. Please register first.'', db, [SelectIdentityByEmailHash (hashEmail e address)])
               else
                 (case resolveMentions e db text of
                    (Respond r, evs') \<Rightarrow> (r, db, [SelectIdentityByEmailHash (hashEmail e address)] @ evs')
                  | (Throw, evs') \<Rightarrow>
                      internalServerError ''Submit report error:'' db ([SelectIdentityByEmailHash (hashEmail e address)] @ evs')
                  | (Continue st, evs') \<Rightarrow>
                      createReport e db victimUin (subjectUins st)
                        (if length (aliasMap st) > 0 then anonymizeContent text (aliasMap st) else text)
                        incidentType (req_interim_relief req) organizationId
                        ([SelectIdentityByEmailHash (hashEmail e address)] @ evs'))))"
  using assms
  by (auto simp: passesValidation_def submitReport_def missing_def uinsWithEmailHash_def Let_def
           split: option.splits prod.splits step.splits)

lemma resolveUins_Respond:
  "resolveUins e db us st = (Respond r, evs) \<Longrightarrow> r = errorResponse 500 ''Failed to validate mentioned users''"
  by (auto simp: resolveUins_def split: if_splits option.splits prod.splits)

lemma resolveUsernames_not_Respond:
  "resolveUsernames e db hs st \<noteq> (Respond r, evs)"
  by (auto simp: resolveUsernames_def split: if_splits option.splits prod.splits)

lemma resolveMentions_Respond:
  "resolveMentions e db t = (Respond r, evs) \<Longrightarrow> r = errorResponse 500 ''Failed to validate mentioned users''"
  by (auto simp: resolveMentions_def Let_def resolveUsernames_not_Respond
           split: prod.splits step.splits dest: resolveUins_Respond)

lemma resolveMentions_no_candidates:
  assumes "uins (extractMentions text) = []" "usernames (extractMentions text) = []"
  shows "resolveMentions e db text = (Continue initialResolution, [])"
  using assms by (simp add: resolveMentions_def resolveUins_def resolveUsernames_def Let_def)

section \<open>A narrative without mentions\<close>

text \<open>
  The form rejects a narrative without candidates before any request is sent; the handler
  itself does not.
\<close>

lemma matchFirst_None: "matchAll re s = [] \<Longrightarrow> matchFirst re s = None"
  by (induction s) (auto split: option.splits)

lemma replaceAll_unmatched: "matchAll re s = [] \<Longrightarrow> replaceAll re a s = s"
  by (induction s) (auto split: option.splits)

lemma newSet_Nil: "newSet xs = [] \<Longrightarrow> xs = []"
  using set_firstSeen [of xs] by (simp add: newSet_firstSeen)

lemma extractMention_none:
  assumes "uins (extractMentions text) = []" "usernames (extractMentions text) = []"
  shows "extractMention text = NoMention"
proof -
  from assms(1) have u: "matchAll uinRegex text = []"
    by (auto simp: extractMentions_def Let_def dest: newSet_Nil)
  then have "replaceAll uinRegex [] text = text"
    by (rule replaceAll_unmatched)
  with assms(2) have n: "matchAll usernameRegex text = []"
    by (auto simp: extractMentions_def Let_def dest: newSet_Nil)
  from u n show ?thesis
    by (simp add: extractMention_def matchFirst_None)
qed

lemma handleSubmit_requires_mention:
  assumes "uins (extractMentions (form_content formData)) = []"
    and "usernames (extractMentions (form_content formData)) = []"
  shows "\<exists>message. handleSubmit formData = Inl message"
  using extractMention_none [OF assms]
  by (simp add: handleSubmit_def mentionValue_def missing_def)

text \<open>
  C1 (as amended). The handler has no check on the number of mentions. For a request that
  passes validation, with a registered reporter, whose narrative yields no candidate of
  either format, \<open>submitReport\<close> makes no resolution read and goes on to the insert with an
  empty subject list and the narrative unchanged; when the insert succeeds the answer is
  201 and the stored report has no subject.
\<close>

theorem submitReport_without_mentions:
  assumes val: "passesValidation e req address text incidentType organizationId"
    and reporter: "victimRead e = Succeeds" "uinsWithEmailHash db (hashEmail e address) = [victimUin]"
    and none: "uins (extractMentions text) = []" "usernames (extractMentions text) = []"
  shows "submitReport e db req
           = createReport e db victimUin [] text incidentType (req_interim_relief req) organizationId
               [SelectIdentityByEmailHash (hashEmail e address)]
       \<and> (reportInsert e = Succeeds \<longrightarrow>
            statusCode (fst (submitReport e db req)) = 201
            \<and> map subject_uins (reports (fst (snd (submitReport e db req))))
                = map subject_uins (reports db) @ [[]]
            \<and> map content (reports (fst (snd (submitReport e db req))))
                = map content (reports db) @ [text])"
proof -
  have run: "submitReport e db req
           = createReport e db victimUin [] text incidentType (req_interim_relief req) organizationId
               [SelectIdentityByEmailHash (hashEmail e address)]"
    using reporter
    by (simp add: submitReport_validated [OF val] single_def
          resolveMentions_no_candidates [OF none] initialResolution_def)
  show ?thesis
    unfolding run by (simp add: createReport_def Let_def)
qed

theorem submitReport_without_mentions_witness:
  "passesValidation exampleEnv (exampleRequest ''He did this.'') ''alice@example.org'' ''He did this.'' ''verbal'' ''org-1''
   \<and> uinsWithEmailHash exampleStore (hashEmail exampleEnv ''alice@example.org'') = [''1'']
   \<and> submitReport exampleEnv exampleStore (exampleRequest ''He did this.'')
       = createReport exampleEnv exampleStore ''1'' [] ''He did this.'' ''verbal'' None ''org-1''
               [SelectIdentityByEmailHash ''sha:alice@example.org'']"
proof -
  have val: "passesValidation exampleEnv (exampleRequest ''He did this.'') ''alice@example.org'' ''He did this.'' ''verbal'' ''org-1''"
    by (simp add: passesValidation_def exampleEnv_def exampleRequest_def)
  have reporter: "victimRead exampleEnv = Succeeds" "uinsWithEmailHash exampleStore (hashEmail exampleEnv ''alice@example.org'') = [''1'']"
    by (simp_all add: uinsWithEmailHash_def exampleEnv_def exampleStore_def)
  have none: "uins (extractMentions ''He did this.'') = []" "usernames (extractMentions ''He did this.'') = []"
    by code_simp+
  from submitReport_without_mentions [OF val reporter none] val reporter
  show ?thesis
    by (simp add: exampleEnv_def exampleRequest_def)
qed

theorem submitReport_without_mentions_counterexample:
  "uins (extractMentions ''He did this.'') = []
   \<and> usernames (extractMentions ''He did this.'') = []
   \<and> statusCode (fst (submitReport exampleEnv exampleStore (exampleRequest ''He did this.''))) = 201
   \<and> map content (reports (fst (snd (submitReport exampleEnv exampleStore (exampleRequest ''He did this.'')))))
       = [''He did this.'']
   \<and> map subject_uins (reports (fst (snd (submitReport exampleEnv exampleStore (exampleRequest ''He did this.'')))))
       = [[]]"
  by code_simp

section \<open>Storage faults during a submission\<close>

text \<open>
  C2 (as amended). For a request that passes validation: an error reply of the
  reporter-identity read is answered 404 like an unregistered reporter, and a thrown one
  500 \<open>Internal server error\<close>; an error reply of the directory check of the structured
  candidates is fatal, 500 \<open>Failed to validate mentioned users\<close>, with nothing logged and
  nothing stored; an error reply of the username lookup is logged by a warning and counts
  as no match, the handler going on to the insert with what the structured pass resolved;
  an error reply of the insert is logged and answered 500 \<open>Failed to submit report\<close>, the
  store unchanged.
\<close>

theorem submitReport_storage_faults:
  assumes val: "passesValidation e req address text incidentType organizationId"
  shows "(victimRead e = Errors \<longrightarrow>
            submitReport e db req
              = (errorResponse 404 ''User not found. Please register first.'', db,
                 [SelectIdentityByEmailHash (hashEmail e address)]))
       \<and> (victimRead e = Throws \<longrightarrow>
            submitReport e db req
              = (errorResponse 500 ''Internal server error'', db,
                 [SelectIdentityByEmailHash (hashEmail e address), ConsoleError ''Submit report error:'']))
       \<and> (victimRead e = Succeeds \<and> uinsWithEmailHash db (hashEmail e address) = [victimUin]
           \<and> uins (extractMentions text) \<noteq> [] \<and> uinRead e = Errors \<longrightarrow>
            submitReport e db req
              = (errorResponse 500 ''Failed to validate mentioned users'', db,
                 [SelectIdentityByEmailHash (hashEmail e address),
                  SelectDirectoryByUins (uins (extractMentions text))]))
       \<and> (victimRead e = Succeeds \<and> uinsWithEmailHash db (hashEmail e address) = [victimUin]
           \<and> resolveUins e db (uins (extractMentions text)) initialResolution = (Continue st, evs)
           \<and> usernames (extractMentions text) \<noteq> [] \<and> usernameRead e = Errors \<longrightarrow>
            submitReport e db req
              = createReport e db victimUin (subjectUins st)
                  (if length (aliasMap st) > 0 then anonymizeContent text (aliasMap st) else text)
                  incidentType (req_interim_relief req) organizationId
                  ([SelectIdentityByEmailHash (hashEmail e address)] @ evs
                   @ [SelectIdentityByUsernames (usernames (extractMentions text)),
                      ConsoleWarn ''Username lookup error:'']))
       \<and> (victimRead e = Succeeds \<and> uinsWithEmailHash db (hashEmail e address) = [victimUin]
           \<and> resolveMentions e db text = (Continue st', evs') \<and> reportInsert e = Errors \<longrightarrow>
            submitReport e db req
              = (errorResponse 500 ''Failed to submit report'', db,
                 [SelectIdentityByEmailHash (hashEmail e address)] @ evs'
                 @ [InsertReport
                      \<lparr> report_id = newId e, victim_uin = victimUin, subject_uins = subjectUins st',
                        content = (if length (aliasMap st') > 0
                                   then anonymizeContent text (aliasMap st') else text),
                        incident_type = incidentType,
                        interim_relief = (case req_interim_relief req of None \<Rightarrow> [] | Some rs \<Rightarrow> rs),
                        organization_id = organizationId, case_token = generateCaseToken e,
                        status = ''pending'', created_at = now e, closed_at = None \<rparr>,
                    ConsoleError ''Report submission error:'']))"
proof (intro conjI impI)
  assume "victimRead e = Errors"
  then show "submitReport e db req
              = (errorResponse 404 ''User not found. Please register first.'', db,
                 [SelectIdentityByEmailHash (hashEmail e address)])"
    by (simp add: submitReport_validated [OF val] single_def)
next
  assume "victimRead e = Throws"
  then show "submitReport e db req
              = (errorResponse 500 ''Internal server error'', db,
                 [SelectIdentityByEmailHash (hashEmail e address), ConsoleError ''Submit report error:''])"
    by (simp add: submitReport_validated [OF val] single_def internalServerError_def)
next
  assume h: "victimRead e = Succeeds \<and> uinsWithEmailHash db (hashEmail e address) = [victimUin]
           \<and> uins (extractMentions text) \<noteq> [] \<and> uinRead e = Errors"
  then have "resolveMentions e db text
               = (Respond (errorResponse 500 ''Failed to validate mentioned users''),
                  [SelectDirectoryByUins (uins (extractMentions text))])"
    by (simp add: resolveMentions_def resolveUins_def select_def Let_def)
  with h show "submitReport e db req
              = (errorResponse 500 ''Failed to validate mentioned users'', db,
                 [SelectIdentityByEmailHash (hashEmail e address),
                  SelectDirectoryByUins (uins (extractMentions text))])"
    by (simp add: submitReport_validated [OF val] single_def)
next
  assume h: "victimRead e = Succeeds \<and> uinsWithEmailHash db (hashEmail e address) = [victimUin]
           \<and> resolveUins e db (uins (extractMentions text)) initialResolution = (Continue st, evs)
           \<and> usernames (extractMentions text) \<noteq> [] \<and> usernameRead e = Errors"
  then have "resolveMentions e db text
               = (Continue st, evs @ [SelectIdentityByUsernames (usernames (extractMentions text)),
                      ConsoleWarn ''Username lookup error:''])"
    by (simp add: resolveMentions_def resolveUsernames_def select_def Let_def)
  with h show "submitReport e db req
              = createReport e db victimUin (subjectUins st)
                  (if length (aliasMap st) > 0 then anonymizeContent text (aliasMap st) else text)
                  incidentType (req_interim_relief req) organizationId
                  ([SelectIdentityByEmailHash (hashEmail e address)] @ evs
                   @ [SelectIdentityByUsernames (usernames (extractMentions text)),
                      ConsoleWarn ''Username lookup error:''])"
    by (simp add: submitReport_validated [OF val] single_def)
next
  assume h: "victimRead e = Succeeds \<and> uinsWithEmailHash db (hashEmail e address) = [victimUin]
           \<and> resolveMentions e db text = (Continue st', evs') \<and> reportInsert e = Errors"
  then show "submitReport e db req
              = (errorResponse 500 ''Failed to submit report'', db,
                 [SelectIdentityByEmailHash (hashEmail e address)] @ evs'
                 @ [InsertReport
                      \<lparr> report_id = newId e, victim_uin = victimUin, subject_uins = subjectUins st',
                        content = (if length (aliasMap st') > 0
                                   then anonymizeContent text (aliasMap st') else text),
                        incident_type = incidentType,
                        interim_relief = (case req_interim_relief req of None \<Rightarrow> [] | Some rs \<Rightarrow> rs),
                        organization_id = organizationId, case_token = generateCaseToken e,
                        status = ''pending'', created_at = now e, closed_at = None \<rparr>,
                    ConsoleError ''Report submission error:''])"
    by (simp add: submitReport_validated [OF val] single_def createReport_def Let_def)
qed

theorem submitReport_storage_faults_witness:
  "passesValidation (exampleEnv \<lparr> usernameRead := Errors \<rparr>) (exampleRequest ''@jane and @[John](7)'')
      ''alice@example.org'' ''@jane and @[John](7)'' ''verbal'' ''org-1''
   \<and> usernames (extractMentions ''@jane and @[John](7)'') = [''jane'']
   \<and> submitReport (exampleEnv \<lparr> usernameRead := Errors \<rparr>) exampleStore (exampleRequest ''@jane and @[John](7)'')
       = createReport (exampleEnv \<lparr> usernameRead := Errors \<rparr>) exampleStore ''1'' [''7'']
           ''@jane and SUBJECT_1'' ''verbal'' None ''org-1''
           [SelectIdentityByEmailHash ''sha:alice@example.org'', SelectDirectoryByUins [''7''],
            SelectIdentityByUsernames [''jane''], ConsoleWarn ''Username lookup error:'']
   \<and> statusCode (fst (submitReport (exampleEnv \<lparr> usernameRead := Errors \<rparr>) exampleStore
                         (exampleRequest ''@jane and @[John](7)''))) = 201"
proof -
  let ?e = "exampleEnv \<lparr> usernameRead := Errors \<rparr>"
  let ?t = "''@jane and @[John](7)''"
  have val: "passesValidation ?e (exampleRequest ?t) ''alice@example.org'' ?t ''verbal'' ''org-1''"
    by (simp add: passesValidation_def exampleEnv_def exampleRequest_def)
  have reporter: "victimRead ?e = Succeeds"
      "uinsWithEmailHash exampleStore (hashEmail ?e ''alice@example.org'') = [''1'']"
    by (simp_all add: uinsWithEmailHash_def exampleEnv_def exampleStore_def)
  have names: "usernames (extractMentions ?t) = [''jane'']"
    by code_simp
  have structured: "resolveUins ?e exampleStore (uins (extractMentions ?t)) initialResolution
      = (Continue \<lparr> aliasMap = [(''7'', ''SUBJECT_1'')], aliasCounter = 2, subjectUins = [''7''] \<rparr>,
         [SelectDirectoryByUins [''7'']])"
    by code_simp
  have fault: "usernameRead ?e = Errors"
    by simp
  have anon: "anonymizeContent ?t [(''7'', ''SUBJECT_1'')] = ''@jane and SUBJECT_1''"
    by code_simp
  have ok: "statusCode (fst (submitReport ?e exampleStore (exampleRequest ?t))) = 201"
    by code_simp
  from submitReport_storage_faults [OF val, of exampleStore "''1''"
      "\<lparr> aliasMap = [(''7'', ''SUBJECT_1'')], aliasCounter = 2, subjectUins = [''7''] \<rparr>"
      "[SelectDirectoryByUins [''7'']]"]
    val reporter names structured fault anon ok
  show ?thesis
    by (simp add: exampleEnv_def exampleRequest_def)
qed

theorem submitReport_storage_faults_counterexample:
  "uins (extractMentions ''@[John](7) watched.'') = [''7'']
   \<and> submitReport (exampleEnv \<lparr> uinRead := Errors \<rparr>) exampleStore (exampleRequest ''@[John](7) watched.'')
       = (errorResponse 500 ''Failed to validate mentioned users'', exampleStore,
          [SelectIdentityByEmailHash ''sha:alice@example.org'', SelectDirectoryByUins [''7'']])
   \<and> submitReport (exampleEnv \<lparr> victimRead := Errors \<rparr>) exampleStore (exampleRequest ''@[John](7) watched.'')
       = (errorResponse 404 ''User not found. Please register first.'', exampleStore,
          [SelectIdentityByEmailHash ''sha:alice@example.org''])"
  by code_simp

section \<open>An unregistered reporter\<close>

text \<open>
  C7. When the lookup by the hash of the reporter's address finds no identity row, the
  store that \<open>submitReport\<close> leaves is the store it found: no report is added and no
  identity is registered. For a request that passes validation the answer is 404
  \<open>User not found. Please register first.\<close>, not the 400 of a validation error, after the
  single read by hash (provided that read does not throw).
\<close>

theorem submitReport_unregistered_reporter:
  assumes none: "uinsWithEmailHash db (hashEmail e address) = []"
    and addr: "email req = Some address"
  shows "fst (snd (submitReport e db req)) = db
       \<and> (passesValidation e req address text incidentType organizationId \<and> victimRead e \<noteq> Throws
           \<longrightarrow> submitReport e db req
               = (errorResponse 404 ''User not found. Please register first.'', db,
                  [SelectIdentityByEmailHash (hashEmail e address)]))"
proof -
  note rows = none
  have a: "fst (snd (submitReport e db req)) = db"
    using addr rows
    by (cases "victimRead e")
       (auto simp: submitReport_def single_def internalServerError_def Let_def
             split: option.splits)
  have b: "submitReport e db req
               = (errorResponse 404 ''User not found. Please register first.'', db,
                  [SelectIdentityByEmailHash (hashEmail e address)])"
    if "passesValidation e req address text incidentType organizationId" "victimRead e \<noteq> Throws"
    using that rows
    by (cases "victimRead e") (simp_all add: submitReport_validated single_def)
  from a b show ?thesis by blast
qed

theorem submitReport_unregistered_reporter_witness:
  "uinsWithEmailHash exampleStore (hashEmail exampleEnv ''mallory@example.org'') = []
   \<and> submitReport exampleEnv exampleStore ((exampleRequest ''@bob did this.'') \<lparr> email := Some ''mallory@example.org'' \<rparr>)
       = (errorResponse 404 ''User not found. Please register first.'', exampleStore,
          [SelectIdentityByEmailHash ''sha:mallory@example.org''])"
proof -
  let ?req = "(exampleRequest ''@bob did this.'') \<lparr> email := Some ''mallory@example.org'' \<rparr>"
  have none: "uinsWithEmailHash exampleStore (hashEmail exampleEnv ''mallory@example.org'') = []"
    by (simp add: uinsWithEmailHash_def exampleStore_def exampleEnv_def)
  have addr: "email ?req = Some ''mallory@example.org''"
    by simp
  have val: "passesValidation exampleEnv ?req ''mallory@example.org'' ''@bob did this.'' ''verbal'' ''org-1''"
    by (simp add: passesValidation_def exampleEnv_def exampleRequest_def)
  have nt: "victimRead exampleEnv \<noteq> Throws"
    by (simp add: exampleEnv_def)
  from submitReport_unregistered_reporter [OF none addr, of "''@bob did this.''" "''verbal''" "''org-1''"] val nt none
  show ?thesis
    by (simp add: exampleEnv_def)
qed

section \<open>The answer to a successful submission\<close>

text \<open>
  C9. Whenever \<open>submitReport\<close> answers 201, the body is the fixed success message, the case
  token and the creation timestamp of the new row, and nothing else: it is determined by
  the token generator and the clock alone, so neither the content, the subjects nor the
  reporter are echoed.
\<close>

theorem submitReport_response_body:
  assumes "submitReport e db req = (r, db', evs)" and "statusCode r = 201"
  shows "body r = [(''message'', JString ''Report submitted successfully''),
                   (''case_token'', JString (generateCaseToken e)),
                   (''created_at'', JString (now e))]"
  using assms
  by (auto simp: submitReport_def createReport_def internalServerError_def errorResponse_def Let_def
           split: if_splits option.splits prod.splits step.splits outcome.splits
           dest!: resolveMentions_Respond)

theorem submitReport_response_body_witness:
  "statusCode (fst (submitReport exampleEnv exampleStore (exampleRequest ''@jane harassed me and @[John](7) watched.''))) = 201
   \<and> body (fst (submitReport exampleEnv exampleStore (exampleRequest ''@jane harassed me and @[John](7) watched.'')))
       = [(''message'', JString ''Report submitted successfully''),
          (''case_token'', JString ''SH-7K2M9Q''),
          (''created_at'', JString ''2025-01-01T00:00:00Z'')]"
proof -
  let ?run = "submitReport exampleEnv exampleStore (exampleRequest ''@jane harassed me and @[John](7) watched.'')"
  have ok: "statusCode (fst ?run) = 201"
    by code_simp
  from submitReport_response_body [of exampleEnv exampleStore _ "fst ?run" "fst (snd ?run)" "snd (snd ?run)", OF _ ok] ok
  show ?thesis
    by (simp add: exampleEnv_def)
qed

section \<open>Status lookup\<close>

text \<open>
  C8. The format of the token is checked before storage is touched: with a missing, empty
  or malformed token \<open>getReportStatus\<close> answers 400 (invalid format) and has made no
  storage call, indeed no call at all; with a well-formed token that no report carries it
  answers 404 (not found), after the one read by token.
\<close>

theorem getReportStatus_format_before_storage:
  assumes "supabaseConfigured e"
  shows "(paramToken p = None \<or> paramToken p = Some []
            \<or> (\<exists>t. paramToken p = Some t \<and> \<not> isValidCaseToken e t)
          \<longrightarrow> getReportStatus e db p = (errorResponse 400 ''Invalid case token format'', [])
              \<and> filter isStorageCall (snd (getReportStatus e db p)) = [])
       \<and> (\<forall>t. paramToken p = Some t \<and> t \<noteq> [] \<and> isValidCaseToken e t
               \<and> statusRead e \<noteq> Throws \<and> (\<forall>r \<in> set (reports db). case_token r \<noteq> t)
          \<longrightarrow> getReportStatus e db p
                = (errorResponse 404 ''Report not found'', [SelectReportByToken t]))"
proof (intro conjI allI impI)
  assume bad: "paramToken p = None \<or> paramToken p = Some []
                 \<or> (\<exists>t. paramToken p = Some t \<and> \<not> isValidCaseToken e t)"
  then show r: "getReportStatus e db p = (errorResponse 400 ''Invalid case token format'', [])"
    using assms by (auto simp: getReportStatus_def)
  show "filter isStorageCall (snd (getReportStatus e db p)) = []"
    by (simp add: r)
next
  fix t
  assume h: "paramToken p = Some t \<and> t \<noteq> [] \<and> isValidCaseToken e t
               \<and> statusRead e \<noteq> Throws \<and> (\<forall>r \<in> set (reports db). case_token r \<noteq> t)"
  then have "filter (\<lambda>r. case_token r = t) (reports db) = []"
    by (auto simp: filter_empty_conv)
  with h assms
  show "getReportStatus e db p = (errorResponse 404 ''Report not found'', [SelectReportByToken t])"
    by (cases "statusRead e") (simp_all add: getReportStatus_def single_def)
qed

theorem getReportStatus_format_before_storage_witness:
  "supabaseConfigured exampleEnv
   \<and> \<not> isValidCaseToken exampleEnv ''not a token''
   \<and> getReportStatus exampleEnv exampleStore (Single ''not a token'')
       = (errorResponse 400 ''Invalid case token format'', [])
   \<and> isValidCaseToken exampleEnv ''SH-000000''
   \<and> getReportStatus exampleEnv exampleStore (Single ''SH-000000'')
       = (errorResponse 404 ''Report not found'', [SelectReportByToken ''SH-000000''])"
proof -
  have cfg: "supabaseConfigured exampleEnv"
    by (simp add: exampleEnv_def)
  have bad: "\<not> isValidCaseToken exampleEnv ''not a token''"
    by (simp add: exampleEnv_def)
  have good: "isValidCaseToken exampleEnv ''SH-000000''"
    by (simp add: exampleEnv_def)
  have more: "statusRead exampleEnv \<noteq> Throws"
      "\<forall>r \<in> set (reports exampleStore). case_token r \<noteq> ''SH-000000''"
    by (simp_all add: exampleEnv_def exampleStore_def)
  from getReportStatus_format_before_storage [OF cfg, of "Single ''not a token''" exampleStore]
    getReportStatus_format_before_storage [OF cfg, of "Single ''SH-000000''" exampleStore]
    cfg bad good more
  show ?thesis
    by (simp add: paramToken_def)
qed

end
